theory Spec2Isabelle
  imports Main "HOL-Library.Word"
begin

unbundle bit_operations_syntax

section \<open>Character classification (CharacterClassifier)\<close>

text \<open>
  A text is a \<open>std::string_view\<close>: a sequence of bytes, here a \<^typ>\<open>string\<close> (a list of
  \<^typ>\<open>char\<close>, each one byte).  Positions and lengths are \<open>size_t\<close> values, modelled as
  \<^typ>\<open>nat\<close>; the source never subtracts below zero where it computes with them, and
  \<open>std::string_view::npos\<close> is the value \<open>None\<close> of an option.

  The flag bits and the lookup table are those of the source, byte for byte.
\<close>

definition CHAR_ALPHA :: "8 word" where "CHAR_ALPHA = 0x01"
definition CHAR_DIGIT :: "8 word" where "CHAR_DIGIT = 0x02"
definition CHAR_ATEXT_SPECIAL :: "8 word" where "CHAR_ATEXT_SPECIAL = 0x04"
definition CHAR_HEX :: "8 word" where "CHAR_HEX = 0x08"
definition CHAR_DOMAIN :: "8 word" where "CHAR_DOMAIN = 0x10"
definition CHAR_QUOTE :: "8 word" where "CHAR_QUOTE = 0x20"
definition CHAR_INVALID_LOCAL :: "8 word" where "CHAR_INVALID_LOCAL = 0x40"
definition CHAR_BOUNDARY :: "8 word" where "CHAR_BOUNDARY = 0x80"

definition charTable :: "8 word list" where
  "charTable = [
    0x40, 0x40, 0x40, 0x40, 0x40, 0x40, 0x40, 0x40, 0x40, 0xC0, 0xC0, 0x40, 0x40, 0xC0, 0x40, 0x40,
    0x40, 0x40, 0x40, 0x40, 0x40, 0x40, 0x40, 0x40, 0x40, 0x40, 0x40, 0x40, 0x40, 0x40, 0x40, 0x40,
    0xC0, 0x04, 0x60, 0x04, 0x04, 0x04, 0x04, 0x24, 0xC0, 0xC0, 0x04, 0x04, 0xC0, 0x14, 0x14, 0x04,
    0x1A, 0x1A, 0x1A, 0x1A, 0x1A, 0x1A, 0x1A, 0x1A, 0x1A, 0x1A, 0xC0, 0xC0, 0xC0, 0x04, 0xC0, 0x04,
    0x40, 0x19, 0x19, 0x19, 0x19, 0x19, 0x19, 0x11, 0x11, 0x11, 0x11, 0x11, 0x11, 0x11, 0x11, 0x11,
    0x11, 0x11, 0x11, 0x11, 0x11, 0x11, 0x11, 0x11, 0x11, 0x11, 0x11, 0xC0, 0x40, 0xC0, 0x04, 0x04,
    0x24, 0x19, 0x19, 0x19, 0x19, 0x19, 0x19, 0x11, 0x11, 0x11, 0x11, 0x11, 0x11, 0x11, 0x11, 0x11,
    0x11, 0x11, 0x11, 0x11, 0x11, 0x11, 0x11, 0x11, 0x11, 0x11, 0x11, 0x04, 0x04, 0x04, 0x04, 0x40,
    0x40, 0x40, 0x40, 0x40, 0x40, 0x40, 0x40, 0x40, 0x40, 0x40, 0x40, 0x40, 0x40, 0x40, 0x40, 0x40,
    0x40, 0x40, 0x40, 0x40, 0x40, 0x40, 0x40, 0x40, 0x40, 0x40, 0x40, 0x40, 0x40, 0x40, 0x40, 0x40,
    0x40, 0x40, 0x40, 0x40, 0x40, 0x40, 0x40, 0x40, 0x40, 0x40, 0x40, 0x40, 0x40, 0x40, 0x40, 0x40,
    0x40, 0x40, 0x40, 0x40, 0x40, 0x40, 0x40, 0x40, 0x40, 0x40, 0x40, 0x40, 0x40, 0x40, 0x40, 0x40,
    0x40, 0x40, 0x40, 0x40, 0x40, 0x40, 0x40, 0x40, 0x40, 0x40, 0x40, 0x40, 0x40, 0x40, 0x40, 0x40,
    0x40, 0x40, 0x40, 0x40, 0x40, 0x40, 0x40, 0x40, 0x40, 0x40, 0x40, 0x40, 0x40, 0x40, 0x40, 0x40,
    0x40, 0x40, 0x40, 0x40, 0x40, 0x40, 0x40, 0x40, 0x40, 0x40, 0x40, 0x40, 0x40, 0x40, 0x40, 0x40,
    0x40, 0x40, 0x40, 0x40, 0x40, 0x40, 0x40, 0x40, 0x40, 0x40, 0x40, 0x40, 0x40, 0x40, 0x40, 0x40]"

definition isAlpha :: "char \<Rightarrow> bool" where
  "isAlpha c = ((charTable ! of_char c) AND CHAR_ALPHA \<noteq> 0)"

definition isDigit :: "char \<Rightarrow> bool" where
  "isDigit c = ((charTable ! of_char c) AND CHAR_DIGIT \<noteq> 0)"

definition isAlphaNum :: "char \<Rightarrow> bool" where
  "isAlphaNum c = ((charTable ! of_char c) AND (CHAR_ALPHA OR CHAR_DIGIT) \<noteq> 0)"

definition isHexDigit :: "char \<Rightarrow> bool" where
  "isHexDigit c = ((charTable ! of_char c) AND CHAR_HEX \<noteq> 0)"

definition isAtext :: "char \<Rightarrow> bool" where
  "isAtext c = ((charTable ! of_char c) AND (CHAR_ALPHA OR CHAR_DIGIT OR CHAR_ATEXT_SPECIAL) \<noteq> 0)"

definition isDomainChar :: "char \<Rightarrow> bool" where
  "isDomainChar c = ((charTable ! of_char c) AND CHAR_DOMAIN \<noteq> 0)"

definition isScanBoundary :: "char \<Rightarrow> bool" where
  "isScanBoundary c = ((charTable ! of_char c) AND CHAR_BOUNDARY \<noteq> 0)"

definition isScanRightBoundary :: "char \<Rightarrow> bool" where
  "isScanRightBoundary c =
     ((charTable ! of_char c) AND CHAR_BOUNDARY \<noteq> 0 \<or> c = CHR ''.'' \<or> c = CHR ''!'' \<or> c = CHR ''?'')"

definition isInvalidLocalChar :: "char \<Rightarrow> bool" where
  "isInvalidLocalChar c = ((charTable ! of_char c) AND CHAR_INVALID_LOCAL \<noteq> 0)"

definition isQuoteChar :: "char \<Rightarrow> bool" where
  "isQuoteChar c = ((charTable ! of_char c) AND CHAR_QUOTE \<noteq> 0)"

definition isQtextOrQpair :: "char \<Rightarrow> bool" where
  "isQtextOrQpair c =
     (33 \<le> (of_char c :: nat) \<and> (of_char c :: nat) \<le> 126 \<and> c \<noteq> CHR 0x5C \<and> c \<noteq> CHR 0x22)"

section \<open>Local part (LocalPartValidator)\<close>

definition MAX_LOCAL_PART :: nat where "MAX_LOCAL_PART = 64"

text \<open>The \<open>for\<close> loop of \<open>validateDotAtom\<close>: \<open>i\<close> runs from \<open>start\<close> to \<open>endp\<close>.\<close>

function dotAtomLoop :: "string \<Rightarrow> nat \<Rightarrow> nat \<Rightarrow> bool \<Rightarrow> bool" where
  "dotAtomLoop text endp i prevDot =
     (if i < endp then
        (if text ! i = CHR ''.'' then
           (if prevDot then False else dotAtomLoop text endp (i + 1) True)
         else
           (if \<not> isAtext (text ! i) then False else dotAtomLoop text endp (i + 1) False))
      else True)"
  by pat_completeness auto
termination
  by (relation "measure (\<lambda>(text, endp, i, prevDot). endp - i)") auto

definition validateDotAtom :: "string \<Rightarrow> nat \<Rightarrow> nat \<Rightarrow> bool" where
  "validateDotAtom text start endp =
     (if start \<ge> endp \<or> endp > length text \<or> endp - start > MAX_LOCAL_PART then False
      else if text ! start = CHR ''.'' \<or> text ! (endp - 1) = CHR ''.'' then False
      else dotAtomLoop text endp start False)"

text \<open>The loop of \<open>validateQuotedString\<close> over the bytes between the two quotes; its
  result is \<open>!escaped\<close> when it runs to the end.\<close>

function quotedLoop :: "string \<Rightarrow> nat \<Rightarrow> nat \<Rightarrow> bool \<Rightarrow> bool" where
  "quotedLoop text endp i escaped =
     (if i < endp - 1 then
        (if i \<ge> length text then False
         else if escaped then
           (if (of_char (text ! i) :: nat) > 127 then False
            else quotedLoop text endp (i + 1) False)
         else if text ! i = CHR 0x5C then quotedLoop text endp (i + 1) True
         else if text ! i = CHR 0x22 then False
         else if \<not> isQtextOrQpair (text ! i) \<and> text ! i \<noteq> CHR '' '' \<and> text ! i \<noteq> CHR 0x09
           then False
         else quotedLoop text endp (i + 1) escaped)
      else \<not> escaped)"
  by pat_completeness auto
termination
  by (relation "measure (\<lambda>(text, endp, i, escaped). endp - 1 - i)") auto

definition validateQuotedString :: "string \<Rightarrow> nat \<Rightarrow> nat \<Rightarrow> bool" where
  "validateQuotedString text start endp =
     (if start \<ge> endp \<or> endp > length text \<or> endp - start > MAX_LOCAL_PART + 2 then False
      else if text ! start \<noteq> CHR 0x22 \<or> text ! (endp - 1) \<noteq> CHR 0x22 then False
      else if endp - start < 3 then False
      else quotedLoop text endp (start + 1) False)"

function scanModeLoop :: "string \<Rightarrow> nat \<Rightarrow> nat \<Rightarrow> bool \<Rightarrow> bool" where
  "scanModeLoop text endp i prevDot =
     (if i < endp then
        (if i \<ge> length text then False
         else if text ! i = CHR ''.'' then
           (if prevDot then False else scanModeLoop text endp (i + 1) True)
         else
           (if \<not> isAtext (text ! i) then False else scanModeLoop text endp (i + 1) False))
      else True)"
  by pat_completeness auto
termination
  by (relation "measure (\<lambda>(text, endp, i, prevDot). endp - i)") auto

definition validateScanMode :: "string \<Rightarrow> nat \<Rightarrow> nat \<Rightarrow> bool" where
  "validateScanMode text start endp =
     (if start \<ge> endp \<or> endp > length text \<or> endp - start > MAX_LOCAL_PART then False
      else if text ! start = CHR 0x22 \<or> text ! start = CHR ''.'' \<or> text ! (endp - 1) = CHR ''.''
        then False
      else scanModeLoop text endp start False)"

datatype ValidationMode = EXACT | SCAN

definition validateLocalPart :: "string \<Rightarrow> nat \<Rightarrow> nat \<Rightarrow> ValidationMode \<Rightarrow> bool" where
  "validateLocalPart text start endp mode =
     (if start \<ge> endp \<or> endp > length text then False
      else if mode = SCAN then validateScanMode text start endp
      else if text ! start = CHR 0x22 then validateQuotedString text start endp
      else validateDotAtom text start endp)"

section \<open>Domain part (DomainPartValidator)\<close>

definition MAX_DOMAIN_PART :: nat where "MAX_DOMAIN_PART = 253"
definition MAX_LABEL_LENGTH :: nat where "MAX_LABEL_LENGTH = 63"

subsection \<open>Dot-separated labels\<close>

text \<open>First loop of \<open>validateDomainLabels\<close>: no two consecutive dots.\<close>

function doubleDotLoop :: "string \<Rightarrow> nat \<Rightarrow> nat \<Rightarrow> bool \<Rightarrow> bool" where
  "doubleDotLoop text endp i prevDot =
     (if i < endp then
        (if i \<ge> length text then False
         else if text ! i = CHR ''.'' then
           (if prevDot then False else doubleDotLoop text endp (i + 1) True)
         else doubleDotLoop text endp (i + 1) False)
      else True)"
  by pat_completeness auto
termination
  by (relation "measure (\<lambda>(text, endp, i, prevDot). endp - i)") auto

text \<open>Second loop: \<open>for (size_t i = end; i-- > start;)\<close> looks for the last dot, from
  \<open>end - 1\<close> down to \<open>start\<close>.  The argument \<open>i\<close> is the value before the decrement.\<close>

function lastDotLoop :: "string \<Rightarrow> nat \<Rightarrow> nat \<Rightarrow> nat option" where
  "lastDotLoop text start i =
     (if i > start then
        (if text ! (i - 1) = CHR ''.'' then Some (i - 1) else lastDotLoop text start (i - 1))
      else None)"
  by pat_completeness auto
termination
  by (relation "measure (\<lambda>(text, start, i). i)") auto

text \<open>The check of the bytes of one label (the innermost loop over \<open>j\<close>).\<close>

function labelCharsLoop :: "string \<Rightarrow> nat \<Rightarrow> nat \<Rightarrow> bool" where
  "labelCharsLoop text labelEnd j =
     (if j < labelEnd then
        (if \<not> isAlphaNum (text ! j) \<and> text ! j \<noteq> CHR ''-'' then False
         else labelCharsLoop text labelEnd (j + 1))
      else True)"
  by pat_completeness auto
termination
  by (relation "measure (\<lambda>(text, labelEnd, j). labelEnd - j)") auto

text \<open>Third loop: \<open>for (size_t i = start; i <= end; ++i)\<close> closes a label at every dot and
  at \<open>end\<close>.  \<open>None\<close> is the source's \<open>return false\<close>; otherwise the loop yields the label
  count.\<close>

function labelsLoop :: "string \<Rightarrow> nat \<Rightarrow> nat \<Rightarrow> nat \<Rightarrow> nat \<Rightarrow> nat option" where
  "labelsLoop text endp i labelStart labelCount =
     (if i \<le> endp then
        (if i = endp \<or> text ! i = CHR ''.'' then
           (let labelLen = i - labelStart in
            if labelLen = 0 \<or> labelLen > MAX_LABEL_LENGTH then None
            else if labelStart \<ge> length text \<or> labelStart + labelLen > length text then None
            else if text ! labelStart = CHR ''-'' \<or> text ! (labelStart + labelLen - 1) = CHR ''-''
              then None
            else if \<not> labelCharsLoop text (labelStart + labelLen) labelStart then None
            else labelsLoop text endp (i + 1) (i + 1) (labelCount + 1))
         else labelsLoop text endp (i + 1) labelStart labelCount)
      else Some labelCount)"
  by pat_completeness auto
termination
  by (relation "measure (\<lambda>(text, endp, i, labelStart, labelCount). Suc endp - i)") auto

text \<open>Last loop: the bytes of the final label are letters and digits only.\<close>

function tldLoop :: "string \<Rightarrow> nat \<Rightarrow> nat \<Rightarrow> bool" where
  "tldLoop text endp i =
     (if i < endp then
        (if \<not> isAlphaNum (text ! i) then False else tldLoop text endp (i + 1))
      else True)"
  by pat_completeness auto
termination
  by (relation "measure (\<lambda>(text, endp, i). endp - i)") auto

definition validateDomainLabels :: "string \<Rightarrow> nat \<Rightarrow> nat \<Rightarrow> bool" where
  "validateDomainLabels text start endp =
     (if start \<ge> endp \<or> endp > length text \<or> endp - start < 1 \<or> endp - start > MAX_DOMAIN_PART
        then False
      else if text ! start = CHR ''.'' \<or> text ! start = CHR ''-'' \<or>
              text ! (endp - 1) = CHR ''.'' \<or> text ! (endp - 1) = CHR ''-'' then False
      else if \<not> doubleDotLoop text endp start False then False
      else
        (let lastDotPos = lastDotLoop text start endp in
         case labelsLoop text endp start start 0 of
           None \<Rightarrow> False
         | Some labelCount \<Rightarrow>
             if labelCount < 1 then False
             else
               (case lastDotPos of
                  Some p \<Rightarrow>
                    if labelCount \<ge> 2 then
                      (let tldStart = p + 1; tldLen = endp - tldStart in
                       if tldLen < 1 then False
                       else tldLoop text endp tldStart)
                    else True
                | None \<Rightarrow> True)))"

subsection \<open>IPv4 literal\<close>

definition INT_MAX :: int where "INT_MAX = 2147483647"

text \<open>The guard before each accumulation of \<open>validateIPv4\<close>:
  \<open>octet > (INT_MAX - digit) / 10\<close> on C++ \<open>int\<close> (both operands are non-negative, so
  the truncating division of C++ is \<open>div\<close>).\<close>

definition octetWouldOverflow :: "int \<Rightarrow> int \<Rightarrow> bool" where
  "octetWouldOverflow octet digit = (octet > (INT_MAX - digit) div 10)"

text \<open>The inner loop over the digits \<open>j\<close> of one group \<open>[numStart, i)\<close>; \<open>None\<close> is
  \<open>return false\<close>, otherwise the value of \<open>octet\<close> after the loop.\<close>

function octetLoop :: "string \<Rightarrow> nat \<Rightarrow> nat \<Rightarrow> nat \<Rightarrow> int \<Rightarrow> nat \<Rightarrow> int option" where
  "octetLoop text numStart i j octet digitCount =
     (if j < i then
        (if \<not> isDigit (text ! j) then None
         else if digitCount = 0 \<and> text ! j = CHR ''0'' \<and> i - numStart > 1 then None
         else
           (let digit = (of_char (text ! j) :: int) - of_char (CHR ''0'') in
            if octetWouldOverflow octet digit then None
            else octetLoop text numStart i (j + 1) (octet * 10 + digit) (digitCount + 1)))
      else Some octet)"
  by pat_completeness auto
termination
  by (relation "measure (\<lambda>(text, numStart, i, j, octet, digitCount). i - j)") auto

text \<open>The outer loop \<open>for (size_t i = start; i <= end && octetIdx < 4; ++i)\<close>.  It yields
  \<open>octetIdx\<close>, \<open>numStart\<close> and the array \<open>octets\<close> as they stand after the loop.\<close>

function ipv4Loop ::
  "string \<Rightarrow> nat \<Rightarrow> nat \<Rightarrow> nat \<Rightarrow> nat \<Rightarrow> int list \<Rightarrow> (nat \<times> nat \<times> int list) option" where
  "ipv4Loop text endp i octetIdx numStart octets =
     (if i \<le> endp \<and> octetIdx < 4 then
        (if i = endp \<or> text ! i = CHR ''.'' then
           (if i = numStart \<or> octetIdx \<ge> 4 then None
            else
              (case octetLoop text numStart i numStart 0 0 of
                 None \<Rightarrow> None
               | Some octet \<Rightarrow>
                   if octet > 255 then None
                   else ipv4Loop text endp (i + 1) (octetIdx + 1) (i + 1) (octets[octetIdx := octet])))
         else ipv4Loop text endp (i + 1) octetIdx numStart octets)
      else Some (octetIdx, numStart, octets))"
  by pat_completeness auto
termination
  by (relation "measure (\<lambda>(text, endp, i, octetIdx, numStart, octets). Suc endp - i)") auto

definition validateIPv4 :: "string \<Rightarrow> nat \<Rightarrow> nat \<Rightarrow> bool" where
  "validateIPv4 text start endp =
     (if start \<ge> endp \<or> endp > length text then False
      else
        (case ipv4Loop text endp start 0 start [0, 0, 0, 0] of
           None \<Rightarrow> False
         | Some (octetIdx, numStart, octets) \<Rightarrow>
             if octetIdx \<noteq> 4 then False
             else if numStart - 1 \<noteq> endp then False
             else True))"

subsection \<open>IPv6 literal\<close>

definition MAX_IPV6_ITERATIONS :: nat where "MAX_IPV6_ITERATIONS = 1000"

text \<open>The inner \<open>while\<close> over one run of hexadecimal digits; \<open>None\<close> is \<open>return false\<close>
  (a fifth digit), otherwise the new \<open>pos\<close> and \<open>hexDigits\<close>.\<close>

function hexRunLoop :: "string \<Rightarrow> nat \<Rightarrow> nat \<Rightarrow> int \<Rightarrow> (nat \<times> int) option" where
  "hexRunLoop text endp pos hexDigits =
     (if pos < endp \<and> pos < length text \<and> isHexDigit (text ! pos) then
        (if hexDigits + 1 > 4 then None else hexRunLoop text endp (pos + 1) (hexDigits + 1))
      else Some (pos, hexDigits))"
  by pat_completeness auto
termination
  by (relation "measure (\<lambda>(text, endp, pos, hexDigits). endp - pos)") auto

text \<open>The statements after the main loop of \<open>validateIPv6\<close>.\<close>

definition ipv6Verdict :: "int \<Rightarrow> bool \<Rightarrow> nat \<Rightarrow> bool" where
  "ipv6Verdict segmentCount hasCompression iterations =
     (if iterations \<ge> MAX_IPV6_ITERATIONS then False
      else if hasCompression then segmentCount \<le> 7
      else segmentCount = 8)"

text \<open>The main loop \<open>while (pos < end && iterations++ < MAX_IPV6_ITERATIONS)\<close>.  The
  post-increment happens whenever \<open>pos < end\<close> holds, also when the comparison fails.  A
  \<open>break\<close> is a call of \<open>ipv6Verdict\<close>.\<close>

function ipv6Loop :: "string \<Rightarrow> nat \<Rightarrow> nat \<Rightarrow> int \<Rightarrow> bool \<Rightarrow> nat \<Rightarrow> bool" where
  "ipv6Loop text endp pos segmentCount hasCompression iterations =
     (if pos < endp then
        (if iterations < MAX_IPV6_ITERATIONS then
           (case hexRunLoop text endp pos 0 of
              None \<Rightarrow> False
            | Some (pos1, hexDigits) \<Rightarrow>
                (let segmentCount1 = (if hexDigits > 0 then segmentCount + 1 else segmentCount) in
                 if hexDigits > 0 \<and> segmentCount1 > 8 then False
                 else if hexDigits > 0 \<and> pos1 < endp \<and> pos1 < length text \<and> text ! pos1 = CHR ''.''
                   then
                     (if validateIPv4 text pos endp
                      then ipv6Verdict (segmentCount1 - 1 + 2) hasCompression (iterations + 1)
                      else False)
                 else if pos1 \<ge> endp then ipv6Verdict segmentCount1 hasCompression (iterations + 1)
                 else if text ! pos1 = CHR '':'' then
                   (if pos1 + 1 < endp \<and> pos1 + 1 < length text \<and> text ! (pos1 + 1) = CHR '':''
                    then
                      (if hasCompression then False
                       else if pos1 + 2 \<ge> endp then ipv6Verdict segmentCount1 True (iterations + 1)
                       else ipv6Loop text endp (pos1 + 2) segmentCount1 True (iterations + 1))
                    else if hexDigits = 0 then False
                    else if pos1 + 1 \<ge> endp then False
                    else ipv6Loop text endp (pos1 + 1) segmentCount1 hasCompression (iterations + 1))
                 else False))
         else ipv6Verdict segmentCount hasCompression (iterations + 1))
      else ipv6Verdict segmentCount hasCompression iterations)"
  by pat_completeness auto
termination
  by (relation "measure (\<lambda>(text, endp, pos, segmentCount, hasCompression, iterations).
        MAX_IPV6_ITERATIONS - iterations)") auto

text \<open>\<open>validateIPv6\<close>.  The test for a leading \<open>::\<close> reads \<open>text[pos + 1]\<close> under the
  guard \<open>pos + 1 <= text.length()\<close>, so for a range that ends the text with a single
  colon it reads one byte past the view.  That read is undefined behaviour in C++; the model
  returns \<open>None\<close> for it and \<open>Some\<close> of the verdict otherwise.\<close>

definition validateIPv6 :: "string \<Rightarrow> nat \<Rightarrow> nat \<Rightarrow> bool option" where
  "validateIPv6 text start endp =
     (if start \<ge> endp \<or> endp > length text then Some False
      else if start + 1 \<le> endp \<and> start + 1 \<le> length text \<and> text ! start = CHR '':'' then
        (if start + 1 \<ge> length text then None
         else if text ! (start + 1) = CHR '':'' then
           (if start + 2 \<ge> endp then Some True
            else Some (ipv6Loop text endp (start + 2) 0 True 0))
         else Some False)
      else if start < length text \<and> text ! start = CHR '':'' then Some False
      else Some (ipv6Loop text endp start 0 False 0))"

subsection \<open>Address literals and the dispatch\<close>

text \<open>The last loop of \<open>validateIPLiteral\<close>; every path through it and past it returns
  false.\<close>

function literalColonLoop :: "string \<Rightarrow> nat \<Rightarrow> nat \<Rightarrow> bool" where
  "literalColonLoop text ipEnd i =
     (if i < ipEnd then
        (if i \<ge> length text then False
         else if text ! i = CHR '':'' then False
         else literalColonLoop text ipEnd (i + 1))
      else False)"
  by pat_completeness auto
termination
  by (relation "measure (\<lambda>(text, ipEnd, i). ipEnd - i)") auto

definition hasIPv6Tag :: "string \<Rightarrow> nat \<Rightarrow> bool" where
  "hasIPv6Tag text ipStart =
     ((of_char (text ! ipStart) :: 8 word) OR 0x20 = of_char (CHR ''i'') \<and>
      (of_char (text ! (ipStart + 1)) :: 8 word) OR 0x20 = of_char (CHR ''p'') \<and>
      (of_char (text ! (ipStart + 2)) :: 8 word) OR 0x20 = of_char (CHR ''v'') \<and>
      text ! (ipStart + 3) = CHR ''6'' \<and>
      text ! (ipStart + 4) = CHR '':'')"

definition validateIPLiteral :: "string \<Rightarrow> nat \<Rightarrow> nat \<Rightarrow> bool" where
  "validateIPLiteral text start endp =
     (let len = length text in
      if start \<ge> endp \<or> endp > len then False
      else if text ! start \<noteq> CHR ''['' \<or> text ! (endp - 1) \<noteq> CHR '']'' then False
      else
        (let ipStart = start + 1; ipEnd = endp - 1 in
         if ipStart \<ge> ipEnd \<or> ipEnd > len then False
         else if endp - start > 6 \<and> ipStart + 5 \<le> len \<and> hasIPv6Tag text ipStart then
           (let addrStart =
                  (if ipStart + 5 < ipEnd \<and> ipStart + 5 < len \<and> text ! (ipStart + 5) = CHR '':''
                   then ipStart + 4 else ipStart + 5)
            in validateIPv6 text addrStart ipEnd = Some True)
         else if validateIPv4 text ipStart ipEnd then True
         else literalColonLoop text ipEnd ipStart))"

definition validateDomainPart :: "string \<Rightarrow> nat \<Rightarrow> nat \<Rightarrow> bool" where
  "validateDomainPart text start endp =
     (if start \<ge> endp \<or> endp > length text then False
      else if text ! start = CHR ''['' then validateIPLiteral text start endp
      else validateDomainLabels text start endp)"

section \<open>Exact validation (EmailValidator)\<close>

text \<open>A \<open>std::string_view\<close> is a pointer with a length.  The pointer may be null; every
  other view holds its bytes.\<close>

datatype string_view = NullView nat | View string

fun sv_length :: "string_view \<Rightarrow> nat" where
  "sv_length (NullView n) = n"
| "sv_length (View s) = length s"

definition MIN_EMAIL_SIZE :: nat where "MIN_EMAIL_SIZE = 5"
definition MAX_EMAIL_SIZE :: nat where "MAX_EMAIL_SIZE = 320"

text \<open>The pass of \<open>isValid\<close> that looks for the separating \<open>@\<close>.  The outer \<open>None\<close> is
  \<open>return false\<close> at a second unquoted \<open>@\<close>; otherwise the loop yields \<open>atPos\<close>, which is
  \<open>None\<close> for \<open>npos\<close>.\<close>

function atSearchLoop ::
  "string \<Rightarrow> nat \<Rightarrow> nat option \<Rightarrow> bool \<Rightarrow> bool \<Rightarrow> nat option option" where
  "atSearchLoop email i atPos inQuotes escaped =
     (if i < length email then
        (if escaped then atSearchLoop email (i + 1) atPos inQuotes False
         else if email ! i = CHR 0x5C \<and> inQuotes then atSearchLoop email (i + 1) atPos inQuotes True
         else if email ! i = CHR 0x22 then atSearchLoop email (i + 1) atPos (\<not> inQuotes) escaped
         else if email ! i = CHR ''@'' \<and> \<not> inQuotes then
           (if atPos \<noteq> None then None
            else atSearchLoop email (i + 1) (Some i) inQuotes escaped)
         else atSearchLoop email (i + 1) atPos inQuotes escaped)
      else Some atPos)"
  by pat_completeness auto
termination
  by (relation "measure (\<lambda>(email, i, atPos, inQuotes, escaped). length email - i)") auto

definition isValidText :: "string \<Rightarrow> bool" where
  "isValidText email =
     (let len = length email in
      case atSearchLoop email 0 None False False of
        None \<Rightarrow> False
      | Some None \<Rightarrow> False
      | Some (Some atPos) \<Rightarrow>
          if atPos = 0 \<or> atPos \<ge> len - 1 then False
          else validateLocalPart email 0 atPos EXACT \<and> validateDomainPart email (atPos + 1) len)"

definition isValid :: "string_view \<Rightarrow> bool" where
  "isValid email =
     (let len = sv_length email in
      if len < MIN_EMAIL_SIZE \<or> len > MAX_EMAIL_SIZE then False
      else
        (case email of
           NullView n \<Rightarrow> False
         | View s \<Rightarrow> isValidText s))"

section \<open>Heuristic scanner (EmailScanner)\<close>

definition MAX_INPUT_SIZE :: nat where "MAX_INPUT_SIZE = 10 * 1024 * 1024"
definition MAX_LEFT_SCAN :: nat where "MAX_LEFT_SCAN = 4096"
definition MAX_EMAILS_EXTRACT :: nat where "MAX_EMAILS_EXTRACT = 10000"
definition MAX_TOTAL_CHARS_SCANNED :: nat where "MAX_TOTAL_CHARS_SCANNED = 1000000"
definition MAX_SCAN_ITERATIONS :: nat where "MAX_SCAN_ITERATIONS = 100000"

record EmailBoundaries =
  b_start :: nat
  b_end :: nat
  validBoundaries :: bool
  skipTo :: nat

function findFirstAlnumLoop :: "string \<Rightarrow> nat \<Rightarrow> nat \<Rightarrow> nat option" where
  "findFirstAlnumLoop text limit pos =
     (if pos < limit then
        (if isAlphaNum (text ! pos) then Some pos else findFirstAlnumLoop text limit (pos + 1))
      else None)"
  by pat_completeness auto
termination
  by (relation "measure (\<lambda>(text, limit, pos). limit - pos)") auto

definition findFirstAlnum :: "string \<Rightarrow> nat \<Rightarrow> nat \<Rightarrow> nat option" where
  "findFirstAlnum text pos limit = findFirstAlnumLoop text (min limit (length text)) pos"

function findFirstAtextLoop :: "string \<Rightarrow> nat \<Rightarrow> nat \<Rightarrow> nat option" where
  "findFirstAtextLoop text limit pos =
     (if pos < limit then
        (if isAtext (text ! pos) then Some pos else findFirstAtextLoop text limit (pos + 1))
      else None)"
  by pat_completeness auto
termination
  by (relation "measure (\<lambda>(text, limit, pos). limit - pos)") auto

definition findFirstAtext :: "string \<Rightarrow> nat \<Rightarrow> nat \<Rightarrow> nat option" where
  "findFirstAtext text pos limit = findFirstAtextLoop text (min limit (length text)) pos"

subsection \<open>The loops of findEmailBoundaries\<close>

text \<open>Right boundary: the run of domain characters after the \<open>@\<close>.\<close>

function domainScanLoop :: "string \<Rightarrow> nat \<Rightarrow> nat" where
  "domainScanLoop text endp =
     (if endp < length text \<and> isDomainChar (text ! endp) then domainScanLoop text (endp + 1)
      else endp)"
  by pat_completeness auto
termination
  by (relation "measure (\<lambda>(text, endp). length text - endp)") auto

text \<open>The two loops that take trailing dots, and then trailing hyphens, off the right
  end: \<open>while (end > atPos + 1 && data[end - 1] == c) --end\<close>.\<close>

function trimRightLoop :: "string \<Rightarrow> nat \<Rightarrow> char \<Rightarrow> nat \<Rightarrow> nat" where
  "trimRightLoop text atPos c endp =
     (if endp > atPos + 1 \<and> text ! (endp - 1) = c then trimRightLoop text atPos c (endp - 1)
      else endp)"
  by pat_completeness auto
termination
  by (relation "measure (\<lambda>(text, atPos, c, endp). endp)") auto

text \<open>The inner \<open>while (true)\<close> of the left scan, which looks back over bytes that are
  atext and not a dot.  It yields \<open>foundValid\<close> and \<open>validStart\<close>.\<close>

function lookbackLoop :: "string \<Rightarrow> nat \<Rightarrow> nat \<Rightarrow> nat \<Rightarrow> nat \<Rightarrow> bool \<Rightarrow> bool \<times> nat" where
  "lookbackLoop text atPos lookbackLimit lookback validStart foundValid =
     (if lookback < lookbackLimit \<or> lookback \<ge> atPos \<or> lookback \<ge> length text
        then (foundValid, validStart)
      else if isAtext (text ! lookback) \<and> text ! lookback \<noteq> CHR ''.'' then
        (if lookback = lookbackLimit then (True, lookback)
         else lookbackLoop text atPos lookbackLimit (lookback - 1) lookback True)
      else (foundValid, validStart))"
  by pat_completeness auto
termination
  by (relation "measure (\<lambda>(text, atPos, lookbackLimit, lookback, validStart, foundValid). lookback)")
    auto

text \<open>The left scan \<open>while (start > effectiveMin)\<close>.  It yields \<open>start\<close>,
  \<open>hitInvalidChar\<close> and \<open>invalidCharPos\<close> as they stand after the loop; the last two are
  assigned only right before a \<open>break\<close>, so inside the loop they hold their initial values
  \<open>false\<close> and \<open>atPos\<close>.  In the branch for an illegal byte, \<open>foundValid\<close> and
  \<open>validStart\<close> keep their initial values \<open>false\<close> and \<open>start - 1\<close> unless the look-back
  runs.\<close>

function leftScanLoop :: "string \<Rightarrow> nat \<Rightarrow> nat \<Rightarrow> nat \<Rightarrow> nat \<Rightarrow> nat \<times> bool \<times> nat" where
  "leftScanLoop text atPos endp effectiveMin start =
     (if start > effectiveMin then
        (if text ! (start - 1) = CHR ''@'' then (start, False, atPos)
         else if text ! (start - 1) = CHR ''.'' \<and> start > effectiveMin + 1 \<and> start \<ge> 2 \<and>
                 text ! (start - 2) = CHR ''.'' then (start, True, start - 1)
         else if isInvalidLocalChar (text ! (start - 1)) then
           (case (if text ! (start - 1) = CHR ''@'' \<and> start > effectiveMin + 1
                  then lookbackLoop text atPos effectiveMin (start - 2) (start - 1) False
                  else (False, start - 1)) of
              (foundValid, validStart) \<Rightarrow>
                if foundValid then leftScanLoop text atPos endp effectiveMin validStart
                else (start, True, start))
         else if isQuoteChar (text ! (start - 1)) then
           (if start > effectiveMin + 1 \<and> start \<ge> 2 \<and> text ! (start - 2) = text ! (start - 1)
              then leftScanLoop text atPos endp effectiveMin (start - 1)
            else if endp < length text \<and> text ! endp = text ! (start - 1) then
              (if endp + 1 < length text \<and> text ! (endp + 1) = text ! (start - 1)
                 then leftScanLoop text atPos endp effectiveMin (start - 1)
               else (start, False, atPos))
            else if start > effectiveMin + 1 \<and> start \<ge> 2 then
              (if text ! (start - 2) = CHR ''='' \<or> text ! (start - 2) = CHR '':'' \<or>
                  isScanBoundary (text ! (start - 2)) \<or> isQuoteChar (text ! (start - 2))
                 then leftScanLoop text atPos endp effectiveMin (start - 1)
               else leftScanLoop text atPos endp effectiveMin (start - 1))
            else if start = effectiveMin + 1 then (start - 1, False, atPos)
            else leftScanLoop text atPos endp effectiveMin (start - 1))
         else if text ! (start - 1) = CHR ''.'' then leftScanLoop text atPos endp effectiveMin (start - 1)
         else if isAtext (text ! (start - 1)) then leftScanLoop text atPos endp effectiveMin (start - 1)
         else (start, False, atPos))
      else (start, False, atPos))"
  by pat_completeness auto
termination
  by (relation "measure (\<lambda>(text, atPos, endp, effectiveMin, start). start)")
    (auto split: if_splits)

text \<open>\<open>while (start < atPos && data[start] == '.') ++start\<close>.\<close>

function leadingDotLoop :: "string \<Rightarrow> nat \<Rightarrow> nat \<Rightarrow> nat" where
  "leadingDotLoop text atPos start =
     (if start < atPos \<and> text ! start = CHR ''.'' then leadingDotLoop text atPos (start + 1)
      else start)"
  by pat_completeness auto
termination
  by (relation "measure (\<lambda>(text, atPos, start). atPos - start)") auto

subsection \<open>findEmailBoundaries\<close>

text \<open>The legality of the byte before \<open>start\<close> (the block under
  \<open>if (start > effectiveMin && start > 0)\<close>).\<close>

definition leftBoundaryLegal :: "string \<Rightarrow> nat \<Rightarrow> nat \<Rightarrow> bool \<Rightarrow> bool" where
  "leftBoundaryLegal text effectiveMin start didRecovery =
     (if start > effectiveMin \<and> start > 0 then
        (let prevChar = text ! (start - 1);
             v1 = (if didRecovery then \<not> isAlphaNum prevChar
                   else if isInvalidLocalChar prevChar then True
                   else if \<not> isScanBoundary prevChar \<and> prevChar \<noteq> CHR ''@'' \<and>
                           prevChar \<noteq> CHR ''.'' \<and> prevChar \<noteq> CHR ''='' \<and>
                           prevChar \<noteq> CHR 0x27 \<and> prevChar \<noteq> CHR 0x60 \<and>
                           prevChar \<noteq> CHR 0x22 \<and> prevChar \<noteq> CHR ''/'' then False
                   else True);
             v2 = (if isQuoteChar prevChar \<and> start > effectiveMin + 1 \<and> start \<ge> 2 \<and>
                      (isScanBoundary (text ! (start - 2)) \<or> text ! (start - 2) = CHR ''='' \<or>
                       text ! (start - 2) = CHR '':'' \<or> isQuoteChar (text ! (start - 2)))
                   then True else v1);
             v3 = (if prevChar = CHR ''/'' \<and> start > effectiveMin + 1 \<and> start \<ge> 2 \<and>
                      text ! (start - 2) = CHR ''/''
                   then True else v2)
         in v3)
      else True)"

text \<open>The legality of the byte at \<open>end\<close> (the block under
  \<open>if (end < len && validBoundaries)\<close>).\<close>

definition rightBoundaryLegal :: "string \<Rightarrow> nat \<Rightarrow> bool \<Rightarrow> bool" where
  "rightBoundaryLegal text endp validSoFar =
     (if endp < length text \<and> validSoFar then
        (let nextChar = text ! endp in
         if \<not> isScanRightBoundary nextChar \<and> nextChar \<noteq> CHR 0x27 \<and> nextChar \<noteq> CHR 0x60 \<and>
            nextChar \<noteq> CHR 0x22 \<and> nextChar \<noteq> CHR ''@'' \<and> nextChar \<noteq> CHR 0x5C \<and>
            \<not> isAtext nextChar
         then False else validSoFar)
      else validSoFar)"

text \<open>The part of \<open>findEmailBoundaries\<close> after the recovery: leading dots are taken
  off, \<open>start\<close> moves to the first letter or digit when the byte before it is illegal, and
  the two boundaries are checked.\<close>

definition finishBoundaries ::
  "string \<Rightarrow> nat \<Rightarrow> nat \<Rightarrow> nat \<Rightarrow> nat \<Rightarrow> bool \<Rightarrow> EmailBoundaries" where
  "finishBoundaries text atPos endp effectiveMin start didRecovery =
     (let len = length text;
          start1 = leadingDotLoop text atPos start;
          start2 =
            (if start1 < atPos \<and> start1 > effectiveMin \<and> start1 > 0 \<and>
                isInvalidLocalChar (text ! (start1 - 1))
             then (case findFirstAlnum text start1 atPos of Some firstAlnum \<Rightarrow> firstAlnum
                   | None \<Rightarrow> start1)
             else start1)
      in
        if start2 \<ge> atPos then
          \<lparr>b_start = atPos, b_end = atPos, validBoundaries = False, skipTo = min (atPos + 1) len\<rparr>
        else
          \<lparr>b_start = start2, b_end = endp,
           validBoundaries =
             rightBoundaryLegal text endp (leftBoundaryLegal text effectiveMin start2 didRecovery),
           skipTo = 0\<rparr>)"

definition findEmailBoundaries :: "string \<Rightarrow> nat \<Rightarrow> nat \<Rightarrow> EmailBoundaries" where
  "findEmailBoundaries text atPos minScannedIndex =
     (let len = length text in
      if atPos \<ge> len then
        \<lparr>b_start = atPos, b_end = atPos, validBoundaries = False, skipTo = atPos\<rparr>
      else if atPos + 1 < len \<and> text ! (atPos + 1) = CHR ''['' then
        \<lparr>b_start = atPos, b_end = atPos, validBoundaries = False, skipTo = atPos + 1\<rparr>
      else
        (let end1 = domainScanLoop text (atPos + 1);
             end2 = trimRightLoop text atPos (CHR ''.'') end1;
             endp = (if end2 < len \<and> text ! end2 = CHR ''@''
                     then trimRightLoop text atPos (CHR ''-'') end2 else end2);
             effectiveMin = (if atPos > MAX_LEFT_SCAN
                             then max minScannedIndex (atPos - MAX_LEFT_SCAN)
                             else minScannedIndex)
         in
           (case leftScanLoop text atPos endp effectiveMin atPos of
              (start, hitInvalidChar, invalidCharPos) \<Rightarrow>
                if hitInvalidChar then
                  (case findFirstAlnum text (max invalidCharPos effectiveMin) atPos of
                     Some recoveryPos \<Rightarrow>
                       finishBoundaries text atPos endp effectiveMin recoveryPos True
                   | None \<Rightarrow>
                       (case findFirstAtext text (max invalidCharPos effectiveMin) atPos of
                          Some recoveryPos \<Rightarrow>
                            finishBoundaries text atPos endp effectiveMin recoveryPos True
                        | None \<Rightarrow>
                            \<lparr>b_start = atPos, b_end = atPos, validBoundaries = False,
                             skipTo = min (invalidCharPos + 1) len\<rparr>))
                else finishBoundaries text atPos endp effectiveMin start False)))"

subsection \<open>contains and extract\<close>

text \<open>\<open>std::memchr(data + pos, c, len - pos)\<close>: the first position at or after \<open>pos\<close>
  that holds the byte, or \<open>None\<close> for the null pointer.\<close>

function memchr :: "string \<Rightarrow> char \<Rightarrow> nat \<Rightarrow> nat option" where
  "memchr text c pos =
     (if pos < length text then
        (if text ! pos = c then Some pos else memchr text c (pos + 1))
      else None)"
  by pat_completeness auto
termination
  by (relation "measure (\<lambda>(text, c, pos). length text - pos)") auto

text \<open>\<open>std::string(text.data() + start, n)\<close> for a range inside the text.\<close>

definition substr :: "string \<Rightarrow> nat \<Rightarrow> nat \<Rightarrow> string" where
  "substr text start n = take n (drop start text)"

text \<open>The look-ahead of \<open>extract\<close> for an \<open>@\<close> in \<open>[look, lookLimit)\<close>.\<close>

function nearbyAtLoop :: "string \<Rightarrow> nat \<Rightarrow> nat \<Rightarrow> bool" where
  "nearbyAtLoop text lookLimit look =
     (if look < lookLimit then
        (if text ! look = CHR ''@'' then True else nearbyAtLoop text lookLimit (look + 1))
      else False)"
  by pat_completeness auto
termination
  by (relation "measure (\<lambda>(text, lookLimit, look). lookLimit - look)") auto

text \<open>One pass through a loop body ends with \<open>continue\<close> (or by falling off its end),
  which hands the state to the next test of the loop condition, or leaves the loop with a
  result (\<open>break\<close>, \<open>return\<close>).\<close>

datatype ('s, 'r) loop_step = Continue 's | Break 'r

text \<open>The local variables of \<open>contains\<close> that live across iterations.\<close>

record ScanState =
  pos :: nat
  minScannedIndex :: nat
  lastConsumedEnd :: nat
  totalCharsScanned :: nat

text \<open>The body of the \<open>while (pos < len)\<close> loop of \<open>contains\<close>.  \<open>Break True\<close> is
  \<open>return true\<close>; a \<open>break\<close> falls to the \<open>return false\<close> after the loop.\<close>

definition containsBody :: "string \<Rightarrow> ScanState \<Rightarrow> (ScanState, bool) loop_step" where
  "containsBody text st =
     (let len = length text in
      case memchr text (CHR ''@'') (pos st) of
        None \<Rightarrow> Break False
      | Some atPos \<Rightarrow>
          if atPos < 1 \<or> atPos \<ge> len - 3 then Continue (st\<lparr>pos := atPos + 1\<rparr>)
          else if atPos < lastConsumedEnd st then Continue (st\<lparr>pos := atPos + 1\<rparr>)
          else
            (let boundaries = findEmailBoundaries text atPos (minScannedIndex st);
                 total = totalCharsScanned st + (atPos - b_start boundaries) +
                         (b_end boundaries - atPos)
             in
               if total > MAX_TOTAL_CHARS_SCANNED then Break False
               else if \<not> validBoundaries boundaries then
                 (if skipTo boundaries > 0
                  then Continue (st\<lparr>pos := skipTo boundaries, totalCharsScanned := total\<rparr>)
                  else Continue (st\<lparr>pos := atPos + 1, totalCharsScanned := total\<rparr>))
               else if validateLocalPart text (b_start boundaries) atPos SCAN \<and>
                       validateDomainPart text (atPos + 1) (b_end boundaries)
                 then Break True
               else Continue (st\<lparr>pos := atPos + 1, totalCharsScanned := total\<rparr>)))"

function containsLoop :: "string \<Rightarrow> ScanState \<Rightarrow> bool" where
  "containsLoop text st =
     (if pos st < length text then
        (case containsBody text st of
           Break r \<Rightarrow> r
         | Continue st' \<Rightarrow> containsLoop text st')
      else False)"
  by pat_completeness auto

record ExtractState = ScanState +
  extractedCount :: nat
  iterations :: nat
  emails :: "string list"
  seen :: "string set"

text \<open>The body of the \<open>while\<close> loop of \<open>extract\<close>, after the loop condition has
  incremented \<open>iterations\<close>.  A \<open>break\<close> leaves the loop with the matches collected so far.
  \<open>seen.emplace\<close> inserts the string unless it is there already and reports whether it
  inserted.  Both branches of the look-ahead for a nearby \<open>@\<close> resume at
  \<open>boundaries.end\<close>.\<close>

definition extractBody :: "string \<Rightarrow> ExtractState \<Rightarrow> (ExtractState, string list) loop_step" where
  "extractBody text st =
     (let len = length text in
      if extractedCount st \<ge> MAX_EMAILS_EXTRACT then Break (emails st)
      else
        (case memchr text (CHR ''@'') (pos st) of
           None \<Rightarrow> Break (emails st)
         | Some atPos \<Rightarrow>
             if atPos < 1 \<or> atPos \<ge> len - 3 then Continue (st\<lparr>pos := atPos + 1\<rparr>)
             else if atPos < lastConsumedEnd st then Continue (st\<lparr>pos := atPos + 1\<rparr>)
             else
               (let boundaries = findEmailBoundaries text atPos (minScannedIndex st);
                    total = totalCharsScanned st + (atPos - b_start boundaries) +
                            (b_end boundaries - atPos)
                in
                  if total > MAX_TOTAL_CHARS_SCANNED then Break (emails st)
                  else if \<not> validBoundaries boundaries then
                    (if skipTo boundaries > 0
                     then Continue (st\<lparr>pos := skipTo boundaries, totalCharsScanned := total\<rparr>)
                     else Continue (st\<lparr>pos := atPos + 1, totalCharsScanned := total\<rparr>))
                  else if validateLocalPart text (b_start boundaries) atPos SCAN \<and>
                          validateDomainPart text (atPos + 1) (b_end boundaries) then
                    (if b_start boundaries \<ge> length text \<or> b_end boundaries > length text \<or>
                        b_start boundaries \<ge> b_end boundaries
                     then Continue (st\<lparr>pos := atPos + 1, totalCharsScanned := total\<rparr>)
                     else
                       (let email = substr text (b_start boundaries)
                                      (b_end boundaries - b_start boundaries);
                            inserted = (email \<notin> seen st);
                            nextPos =
                              (if b_end boundaries < len \<and>
                                  (isAtext (text ! b_end boundaries) \<or>
                                   text ! b_end boundaries = CHR ''.'') \<and>
                                  nearbyAtLoop text (min (b_end boundaries + 65) len)
                                    (b_end boundaries)
                               then b_end boundaries else b_end boundaries)
                        in Continue (st\<lparr>pos := nextPos,
                             minScannedIndex := max (minScannedIndex st) (b_start boundaries),
                             lastConsumedEnd := max (lastConsumedEnd st) (b_end boundaries),
                             totalCharsScanned := total,
                             extractedCount :=
                               (if inserted then extractedCount st + 1 else extractedCount st),
                             emails := (if inserted then emails st @ [email] else emails st),
                             seen := insert email (seen st)\<rparr>)))
                  else Continue (st\<lparr>pos := atPos + 1, totalCharsScanned := total\<rparr>))))"

text \<open>\<open>while (pos < len && iterations++ < MAX_SCAN_ITERATIONS)\<close>; after the loop
  \<open>extract\<close> returns the matches.\<close>

function extractLoop :: "string \<Rightarrow> ExtractState \<Rightarrow> string list" where
  "extractLoop text st =
     (if pos st < length text \<and> iterations st < MAX_SCAN_ITERATIONS then
        (case extractBody text (st\<lparr>iterations := iterations st + 1\<rparr>) of
           Break r \<Rightarrow> r
         | Continue st' \<Rightarrow> extractLoop text st')
      else emails st)"
  by pat_completeness auto

text \<open>The two entry points, \<open>contains\<close> and \<open>extract\<close> (here \<open>extractEmails\<close>).  A null view with a non-zero length is rejected after the
  length check; a null view of length zero is an empty text.\<close>

definition contains :: "string_view \<Rightarrow> bool" where
  "contains v =
     (let len = sv_length v in
      if len > MAX_INPUT_SIZE \<or> len < 5 then False
      else
        (case v of
           NullView n \<Rightarrow>
             if len > 0 then False
             else containsLoop []
                    \<lparr>pos = 0, minScannedIndex = 0, lastConsumedEnd = 0, totalCharsScanned = 0\<rparr>
         | View text \<Rightarrow>
             containsLoop text
               \<lparr>pos = 0, minScannedIndex = 0, lastConsumedEnd = 0, totalCharsScanned = 0\<rparr>))"

definition extractEmails :: "string_view \<Rightarrow> string list" where
  "extractEmails v =
     (let len = sv_length v in
      if len > MAX_INPUT_SIZE \<or> len < 5 then []
      else
        (case v of
           NullView n \<Rightarrow>
             if len > 0 then []
             else extractLoop []
                    \<lparr>pos = 0, minScannedIndex = 0, lastConsumedEnd = 0, totalCharsScanned = 0,
                     extractedCount = 0, iterations = 0, emails = [], seen = {}\<rparr>
         | View text \<Rightarrow>
             extractLoop text
               \<lparr>pos = 0, minScannedIndex = 0, lastConsumedEnd = 0, totalCharsScanned = 0,
                extractedCount = 0, iterations = 0, emails = [], seen = {}\<rparr>))"

section \<open>Notions of the specification\<close>

text \<open>The bytes of the range \<open>[a, b)\<close> of a text.\<close>

definition asciiDigit :: "char \<Rightarrow> bool" where
  "asciiDigit c = (48 \<le> (of_char c :: nat) \<and> (of_char c :: nat) \<le> 57)"

definition asciiLetter :: "char \<Rightarrow> bool" where
  "asciiLetter c = ((65 \<le> (of_char c :: nat) \<and> (of_char c :: nat) \<le> 90) \<or>
                    (97 \<le> (of_char c :: nat) \<and> (of_char c :: nat) \<le> 122))"

definition slice :: "string \<Rightarrow> nat \<Rightarrow> nat \<Rightarrow> string" where
  "slice text a b = substr text a (b - a)"

fun splitOn :: "char \<Rightarrow> string \<Rightarrow> string list" where
  "splitOn sep [] = [[]]"
| "splitOn sep (c # cs) =
     (if c = sep then [] # splitOn sep cs
      else (c # hd (splitOn sep cs)) # tl (splitOn sep cs))"

definition decimalValue :: "string \<Rightarrow> nat" where
  "decimalValue g = foldl (\<lambda>acc c. acc * 10 + (of_char c - 48)) 0 g"

definition ipv4Group :: "string \<Rightarrow> bool" where
  "ipv4Group g = (g \<noteq> [] \<and> (\<forall>c \<in> set g. asciiDigit c) \<and>
                  (hd g = CHR ''0'' \<longrightarrow> length g = 1) \<and> decimalValue g \<le> 255)"

definition ipv4Spec :: "string \<Rightarrow> bool" where
  "ipv4Spec s = (length (splitOn (CHR ''.'') s) = 4 \<and> (\<forall>g \<in> set (splitOn (CHR ''.'') s). ipv4Group g))"

definition digitsValue :: "nat \<Rightarrow> string \<Rightarrow> nat" where
  "digitsValue v g = foldl (\<lambda>acc c. acc * 10 + (of_char c - 48)) v g"

definition ipv4Accepted :: "(nat \<times> nat \<times> int list) option \<Rightarrow> nat \<Rightarrow> bool" where
  "ipv4Accepted r endp = (case r of None \<Rightarrow> False | Some (k, ns', os') \<Rightarrow> k = 4 \<and> ns' - 1 = endp)"

definition asciiAlnum :: "char \<Rightarrow> bool" where
  "asciiAlnum c = (asciiLetter c \<or> asciiDigit c)"

definition labelOk :: "string \<Rightarrow> bool" where
  "labelOk l = (1 \<le> length l \<and> length l \<le> 63 \<and>
                (\<forall>c \<in> set l. asciiAlnum c \<or> c = CHR ''-'') \<and>
                hd l \<noteq> CHR ''-'' \<and> last l \<noteq> CHR ''-'')"

fun noConsecutiveDots :: "string \<Rightarrow> bool" where
  "noConsecutiveDots (a # b # cs) =
     (\<not> (a = CHR ''.'' \<and> b = CHR ''.'') \<and> noConsecutiveDots (b # cs))"
| "noConsecutiveDots cs = True"

definition domainLabelsSpec :: "string \<Rightarrow> bool" where
  "domainLabelsSpec s =
     (1 \<le> length s \<and> length s \<le> 253 \<and>
      hd s \<noteq> CHR ''.'' \<and> hd s \<noteq> CHR ''-'' \<and> last s \<noteq> CHR ''.'' \<and> last s \<noteq> CHR ''-'' \<and>
      noConsecutiveDots s \<and>
      (\<forall>l \<in> set (splitOn (CHR ''.'') s). labelOk l) \<and>
      (length (splitOn (CHR ''.'') s) \<ge> 2 \<longrightarrow> (\<forall>c \<in> set (last (splitOn (CHR ''.'') s)). asciiAlnum c)))"

text \<open>The unquoted \<open>@\<close> bytes of a string, as the specification describes the pass:
  the quote state is toggled by an unescaped double quote, and a backslash inside quotes
  escapes the next byte.  The function lists the positions of every \<open>@\<close> outside quotes.\<close>

fun unquotedAts :: "string \<Rightarrow> nat \<Rightarrow> bool \<Rightarrow> bool \<Rightarrow> nat list" where
  "unquotedAts [] i inQuotes escaped = []"
| "unquotedAts (c # cs) i inQuotes escaped =
     (if escaped then unquotedAts cs (i + 1) inQuotes False
      else if c = CHR 0x5C \<and> inQuotes then unquotedAts cs (i + 1) inQuotes True
      else if c = CHR 0x22 then unquotedAts cs (i + 1) (\<not> inQuotes) False
      else if c = CHR ''@'' \<and> \<not> inQuotes then i # unquotedAts cs (i + 1) inQuotes False
      else unquotedAts cs (i + 1) inQuotes False)"

section \<open>The classifier table against the ASCII classes\<close>

lemma isDigit_iff: "isDigit c = asciiDigit c"
proof -
  have "\<forall>c. isDigit c = asciiDigit c" by code_simp
  then show ?thesis by blast
qed

lemma slice_empty [simp]: "b \<le> a \<Longrightarrow> slice t a b = []"
  by (simp add: slice_def substr_def)

lemma slice_Cons: "a < b \<Longrightarrow> b \<le> length t \<Longrightarrow> slice t a b = t ! a # slice t (Suc a) b"
  by (simp add: slice_def substr_def Cons_nth_drop_Suc [symmetric] take_Cons' Suc_diff_Suc)

lemma length_slice [simp]: "b \<le> length t \<Longrightarrow> length (slice t a b) = b - a"
  by (simp add: slice_def substr_def)

lemma nth_slice: "a + k < b \<Longrightarrow> b \<le> length t \<Longrightarrow> slice t a b ! k = t ! (a + k)"
  by (simp add: slice_def substr_def)

lemma splitOn_ne [simp]: "splitOn sep s \<noteq> []"
  by (induction s) auto

lemma length_splitOn_pos [simp]: "0 < length (splitOn sep s)"
  by (simp add: splitOn_ne)


lemma digit_int:
  assumes "asciiDigit c"
  shows "(of_char c :: int) - of_char (CHR ''0'') = int (of_char c - 48)"
    and "(of_char c :: nat) - 48 \<le> 9"
proof -
  have h: "(of_char c :: int) = int (of_char c)" by (simp only: of_nat_of_char)
  have z: "(of_char (CHR ''0'') :: int) = 48" by simp
  from assms have r: "48 \<le> (of_char c :: nat)" "(of_char c :: nat) \<le> 57"
    by (simp_all add: asciiDigit_def)
  show "(of_char c :: int) - of_char (CHR ''0'') = int (of_char c - 48)"
    unfolding h z using r by linarith
  show "(of_char c :: nat) - 48 \<le> 9" using r by linarith
qed

lemma digitsValue_mono: "v \<le> digitsValue v g"
  unfolding digitsValue_def
proof (induction g arbitrary: v)
  case Nil then show ?case by simp
next
  case (Cons c g)
  have "v \<le> v * 10 + (of_char c - 48)" by simp
  also have "\<dots> \<le> foldl (\<lambda>acc c. acc * 10 + (of_char c - 48)) (v * 10 + (of_char c - 48)) g"
    by (rule Cons.IH)
  finally show ?case by simp
qed

declare octetLoop.simps [simp del] ipv4Loop.simps [simp del]

lemma octetLoop_big:
  "255 < octet \<Longrightarrow> octetLoop t numStart i j octet dc = Some v \<Longrightarrow> 255 < v"
proof (induction "i - j" arbitrary: j octet dc)
  case 0
  then show ?case by (simp add: octetLoop.simps [of t numStart i j octet dc])
next
  case (Suc n)
  then have lt: "j < i" by simp
  let ?d = "(of_char (t ! j) :: int) - of_char (CHR ''0'')"
  from Suc.prems(2) lt have dig: "isDigit (t ! j)"
    and rec: "octetLoop t numStart i (j + 1) (octet * 10 + ?d) (dc + 1) = Some v"
    by (auto simp: octetLoop.simps [of t numStart i j octet dc] Let_def split: if_splits)
  from dig have d0: "0 \<le> ?d" by (simp only: isDigit_iff digit_int)
  have big: "255 < octet * 10 + ?d" using Suc.prems(1) d0 by linarith
  have n: "n = i - (j + 1)" using Suc.hyps(2) by simp
  show ?case by (rule Suc.hyps(1) [OF n big rec])
qed

lemma digitsValue_Cons: "digitsValue v (c # g) = digitsValue (v * 10 + (of_char c - 48)) g"
  by (simp add: digitsValue_def)

lemma octetLoop_iff:
  "i \<le> length t \<Longrightarrow> 0 \<le> octet \<Longrightarrow> octet \<le> 255 \<Longrightarrow>
   (\<exists>v. octetLoop t numStart i j octet dc = Some v \<and> v \<le> 255) \<longleftrightarrow>
   ((\<forall>c \<in> set (slice t j i). asciiDigit c) \<and>
    \<not> (dc = 0 \<and> j < i \<and> t ! j = CHR ''0'' \<and> i - numStart > 1) \<and>
    digitsValue (nat octet) (slice t j i) \<le> 255)"
proof (induction "i - j" arbitrary: j octet dc)
  case 0
  then have "i \<le> j" by simp
  then show ?case using 0 by (simp add: octetLoop.simps [of t numStart i j octet dc] digitsValue_def)
next
  case (Suc n)
  then have lt: "j < i" by simp
  note eq = octetLoop.simps [of t numStart i j octet dc]
  let ?c = "t ! j"
  let ?d = "(of_char ?c :: int) - of_char (CHR ''0'')"
  have sl: "slice t j i = ?c # slice t (Suc j) i"
    using lt Suc.prems by (simp add: slice_Cons)
  show ?case
  proof (cases "isDigit ?c")
    case False
    have "octetLoop t numStart i j octet dc = None"
      by (subst eq) (use False lt in simp)
    then show ?thesis using False by (simp add: sl isDigit_iff)
  next
    case dig: True
    then have ad: "asciiDigit ?c" by (simp add: isDigit_iff)
    show ?thesis
    proof (cases "dc = 0 \<and> ?c = CHR ''0'' \<and> i - numStart > 1")
      case True
      have "octetLoop t numStart i j octet dc = None"
        by (subst eq) (use True lt dig in simp)
      then show ?thesis using True lt by simp
    next
      case nz: False
      have dval: "?d = int (of_char ?c - 48)" and d9: "(of_char ?c :: nat) - 48 \<le> 9"
        using digit_int [OF ad] by simp_all
      have nov: "\<not> octetWouldOverflow octet ?d"
        using Suc.prems d9 unfolding dval octetWouldOverflow_def INT_MAX_def by linarith
      have step: "octetLoop t numStart i j octet dc =
                  octetLoop t numStart i (j + 1) (octet * 10 + ?d) (dc + 1)"
        by (subst eq) (use lt dig nz nov in \<open>auto simp: Let_def\<close>)
      have natv: "nat (octet * 10 + ?d) = nat octet * 10 + (of_char ?c - 48)"
        using Suc.prems unfolding dval by (simp add: nat_add_distrib nat_mult_distrib)
      show ?thesis
      proof (cases "octet * 10 + ?d \<le> 255")
        case le: True
        have nn: "0 \<le> octet * 10 + ?d" using Suc.prems unfolding dval by simp
        have n: "n = i - (j + 1)" using Suc.hyps(2) by simp
        have IH: "(\<exists>v. octetLoop t numStart i (j + 1) (octet * 10 + ?d) (dc + 1) = Some v \<and> v \<le> 255) \<longleftrightarrow>
          ((\<forall>c \<in> set (slice t (j + 1) i). asciiDigit c) \<and>
           digitsValue (nat (octet * 10 + ?d)) (slice t (j + 1) i) \<le> 255)"
          using Suc.hyps(1) [OF n \<open>i \<le> length t\<close> nn le, of "dc + 1"] by simp
        show ?thesis
          unfolding step IH sl using nz lt ad natv by (simp add: digitsValue_Cons)
      next
        case gt: False
        then have big: "255 < octet * 10 + ?d" by simp
        have lhs: "\<not> (\<exists>v. octetLoop t numStart i j octet dc = Some v \<and> v \<le> 255)"
          unfolding step using octetLoop_big [OF big] by fastforce
        have "255 < nat (octet * 10 + ?d)" using big by simp
        also have "\<dots> \<le> digitsValue (nat (octet * 10 + ?d)) (slice t (Suc j) i)"
          by (rule digitsValue_mono)
        finally have rhs: "\<not> digitsValue (nat octet) (slice t j i) \<le> 255"
          using natv by (simp add: sl digitsValue_Cons)
        show ?thesis using lhs rhs by blast
      qed
    qed
  qed
qed

lemma splitOn_nodot_append:
  "sep \<notin> set g \<Longrightarrow> splitOn sep (g @ s) = (g @ hd (splitOn sep s)) # tl (splitOn sep s)"
  by (induction g) auto

lemma splitOn_nodot: "sep \<notin> set g \<Longrightarrow> splitOn sep g = [g]"
  using splitOn_nodot_append [of sep g "[]"] by simp

lemma splitOn_nodot_sep:
  "sep \<notin> set g \<Longrightarrow> splitOn sep (g @ sep # s) = g # splitOn sep s"
  by (simp add: splitOn_nodot_append)

lemma slice_append:
  assumes "a \<le> b" "b \<le> c" "c \<le> length t"
  shows "slice t a c = slice t a b @ slice t b c"
proof -
  have e: "c - a = (b - a) + (c - b)" using assms by simp
  have d: "drop (b - a) (drop a t) = drop b t" using assms by simp
  show ?thesis unfolding slice_def substr_def e take_add d ..
qed

lemma slice_snoc: "a \<le> b \<Longrightarrow> b < length t \<Longrightarrow> slice t a (Suc b) = slice t a b @ [t ! b]"
  using slice_append [of a b "Suc b" t] slice_Cons [of b "Suc b" t] by simp


lemma group_ok:
  assumes "ns < i" "i \<le> length t"
  shows "(\<exists>v. octetLoop t ns i ns 0 0 = Some v \<and> v \<le> 255) \<longleftrightarrow> ipv4Group (slice t ns i)"
proof -
  have sl: "slice t ns i = t ! ns # slice t (Suc ns) i" using assms by (simp add: slice_Cons)
  have len: "length (slice t ns i) = i - ns" using assms by simp
  have "(\<exists>v. octetLoop t ns i ns 0 0 = Some v \<and> v \<le> 255) \<longleftrightarrow>
        ((\<forall>c \<in> set (slice t ns i). asciiDigit c) \<and>
         \<not> ((0::nat) = 0 \<and> ns < i \<and> t ! ns = CHR ''0'' \<and> i - ns > 1) \<and>
         digitsValue (nat 0) (slice t ns i) \<le> 255)"
    by (rule octetLoop_iff) (use assms in simp_all)
  also have "\<dots> \<longleftrightarrow> ipv4Group (slice t ns i)"
    unfolding ipv4Group_def len using assms
    by (auto simp: sl digitsValue_def decimalValue_def)
  finally show ?thesis .
qed

lemma ipv4Loop_iff:
  "ns \<le> i \<Longrightarrow> i \<le> endp \<Longrightarrow> endp \<le> length t \<Longrightarrow> idx < 4 \<Longrightarrow>
   CHR ''.'' \<notin> set (slice t ns i) \<Longrightarrow>
   ipv4Accepted (ipv4Loop t endp i idx ns os) endp \<longleftrightarrow>
     (length (splitOn (CHR ''.'') (slice t ns endp)) = 4 - idx \<and>
      (\<forall>g \<in> set (splitOn (CHR ''.'') (slice t ns endp)). ipv4Group g))"
proof (induction "endp - i" arbitrary: i idx ns os)
  case 0
  then have ie: "i = endp" by simp
  note eq = ipv4Loop.simps [of t endp i idx ns os]
  have sp: "splitOn (CHR ''.'') (slice t ns endp) = [slice t ns endp]"
    using "0.prems" ie by (simp add: splitOn_nodot)
  show ?case
  proof (cases "i = ns")
    case True
    have "ipv4Loop t endp i idx ns os = None"
      by (subst eq) (use True ie "0.prems" in simp)
    moreover have "\<not> ipv4Group (slice t ns endp)" using True ie by (simp add: ipv4Group_def)
    ultimately show ?thesis by (simp add: sp ipv4Accepted_def)
  next
    case False
    then have lt: "ns < i" using "0.prems" by simp
    have g: "(\<exists>v. octetLoop t ns i ns 0 0 = Some v \<and> v \<le> 255) \<longleftrightarrow> ipv4Group (slice t ns endp)"
      using group_ok [OF lt] "0.prems" ie by simp
    show ?thesis
    proof (cases "octetLoop t ns i ns 0 0")
      case None
      have "ipv4Loop t endp i idx ns os = None"
        by (subst eq) (use None False ie "0.prems" in simp)
      then show ?thesis using g None by (simp add: sp ipv4Accepted_def)
    next
      case (Some v)
      show ?thesis
      proof (cases "v > 255")
        case True
        have "ipv4Loop t endp i idx ns os = None"
          by (subst eq) (use Some True False ie "0.prems" in simp)
        then show ?thesis using g Some True by (simp add: sp ipv4Accepted_def)
      next
        case le: False
        have "ipv4Loop t endp i idx ns os = ipv4Loop t endp (i + 1) (idx + 1) (i + 1) (os[idx := v])"
          by (subst eq) (use Some le False ie "0.prems" in simp)
        also have "\<dots> = Some (idx + 1, i + 1, os[idx := v])"
          by (subst ipv4Loop.simps) (use ie in simp)
        finally have r: "ipv4Loop t endp i idx ns os = Some (idx + 1, i + 1, os[idx := v])" .
        have acc: "ipv4Accepted (ipv4Loop t endp i idx ns os) endp \<longleftrightarrow> idx = 3"
          unfolding r ipv4Accepted_def using ie by auto
        have "ipv4Group (slice t ns endp)" using g Some le by simp
        then show ?thesis unfolding acc sp using "0.prems" by auto
      qed
    qed
  qed
next
  case (Suc n)
  then have lt: "i < endp" by simp
  note eq = ipv4Loop.simps [of t endp i idx ns os]
  let ?G = "slice t ns i"
  let ?R = "slice t (Suc i) endp"
  have n: "n = endp - (i + 1)" using Suc.hyps(2) by simp
  show ?case
  proof (cases "t ! i = CHR ''.''")
    case dot: True
    have "slice t ns endp = ?G @ slice t i endp"
      by (rule slice_append) (use Suc.prems lt in simp_all)
    also have "slice t i endp = CHR ''.'' # ?R"
      using lt Suc.prems dot by (simp add: slice_Cons)
    finally have sp: "splitOn (CHR ''.'') (slice t ns endp) = ?G # splitOn (CHR ''.'') ?R"
      using Suc.prems by (simp add: splitOn_nodot_sep)
    show ?thesis
    proof (cases "i = ns")
      case True
      have "ipv4Loop t endp i idx ns os = None"
        by (subst eq) (use True lt dot Suc.prems in simp)
      moreover have "\<not> ipv4Group ?G" using True by (simp add: ipv4Group_def)
      ultimately show ?thesis by (simp add: sp ipv4Accepted_def)
    next
      case False
      then have ltn: "ns < i" using Suc.prems by simp
      have g: "(\<exists>v. octetLoop t ns i ns 0 0 = Some v \<and> v \<le> 255) \<longleftrightarrow> ipv4Group ?G"
        using group_ok [OF ltn] Suc.prems lt by simp
      show ?thesis
      proof (cases "octetLoop t ns i ns 0 0")
        case None
        have "ipv4Loop t endp i idx ns os = None"
          by (subst eq) (use None False lt dot Suc.prems in simp)
        then show ?thesis using g None by (simp add: sp ipv4Accepted_def)
      next
        case (Some v)
        show ?thesis
        proof (cases "v > 255")
          case True
          have "ipv4Loop t endp i idx ns os = None"
            by (subst eq) (use Some True False lt dot Suc.prems in simp)
          then show ?thesis using g Some True by (simp add: sp ipv4Accepted_def)
        next
          case le: False
          have r: "ipv4Loop t endp i idx ns os =
                   ipv4Loop t endp (i + 1) (idx + 1) (i + 1) (os[idx := v])"
            by (subst eq) (use Some le False lt dot Suc.prems in simp)
          have gg: "ipv4Group ?G" using g Some le by simp
          show ?thesis
          proof (cases "idx + 1 < 4")
            case True
            have "ipv4Accepted (ipv4Loop t endp (i + 1) (idx + 1) (i + 1) (os[idx := v])) endp \<longleftrightarrow>
               (length (splitOn (CHR ''.'') (slice t (i + 1) endp)) = 4 - (idx + 1) \<and>
                (\<forall>g \<in> set (splitOn (CHR ''.'') (slice t (i + 1) endp)). ipv4Group g))"
              by (rule Suc.hyps(1) [OF n]) (use lt Suc.prems True in simp_all)
            then show ?thesis unfolding r sp using gg True by auto
          next
            case False
            then have i4: "idx + 1 = 4" using Suc.prems by simp
            have r2: "ipv4Loop t endp (i + 1) (idx + 1) (i + 1) (os[idx := v]) =
                  Some (idx + 1, i + 1, os[idx := v])"
              by (subst ipv4Loop.simps) (use i4 in simp)
            have acc: "\<not> ipv4Accepted (ipv4Loop t endp i idx ns os) endp"
              unfolding r r2 ipv4Accepted_def using lt by simp
            show ?thesis unfolding sp using acc i4 by simp
          qed
        qed
      qed
    qed
  next
    case nodot: False
    have r: "ipv4Loop t endp i idx ns os = ipv4Loop t endp (i + 1) idx ns os"
      by (subst eq) (use nodot lt Suc.prems in simp)
    have "slice t ns (Suc i) = ?G @ [t ! i]"
      using Suc.prems lt by (simp add: slice_snoc)
    then have nd: "CHR ''.'' \<notin> set (slice t ns (i + 1))"
      using Suc.prems nodot by simp
    show ?thesis
      unfolding r by (rule Suc.hyps(1) [OF n]) (use lt Suc.prems nd in simp_all)
  qed
qed

lemma validateIPv4_iff:
  "validateIPv4 t start endp \<longleftrightarrow> (endp \<le> length t \<and> ipv4Spec (slice t start endp))"
proof (cases "start \<ge> endp \<or> endp > length t")
  case True
  then show ?thesis
    by (auto simp: validateIPv4_def ipv4Spec_def)
next
  case False
  then have h: "start < endp" "endp \<le> length t" by simp_all
  have "validateIPv4 t start endp = ipv4Accepted (ipv4Loop t endp start 0 start [0, 0, 0, 0]) endp"
    using h by (auto simp: validateIPv4_def ipv4Accepted_def split: option.splits)
  also have "\<dots> \<longleftrightarrow> (length (splitOn (CHR ''.'') (slice t start endp)) = 4 - 0 \<and>
      (\<forall>g \<in> set (splitOn (CHR ''.'') (slice t start endp)). ipv4Group g))"
    by (rule ipv4Loop_iff) (use h in simp_all)
  finally show ?thesis using h by (simp add: ipv4Spec_def)
qed

lemma overflow_guard:
  "0 \<le> octet \<Longrightarrow> 0 \<le> digit \<Longrightarrow> digit \<le> 9 \<Longrightarrow> \<not> octetWouldOverflow octet digit \<Longrightarrow>
   octet * 10 + digit \<le> INT_MAX"
  unfolding octetWouldOverflow_def INT_MAX_def by linarith

text \<open>The accumulator of one group never leaves the range of a C++ \<open>int\<close>: from a value
  between 0 and \<open>INT_MAX\<close>, every run of the digit loop that returns a value went only
  through accumulations that the guard let through, so the value it returns is at least the
  value it started from and at most \<open>INT_MAX\<close>.\<close>

lemma octetLoop_bound:
  "0 \<le> octet \<Longrightarrow> octet \<le> INT_MAX \<Longrightarrow> octetLoop t numStart i j octet dc = Some v \<Longrightarrow>
   octet \<le> v \<and> v \<le> INT_MAX"
proof (induction "i - j" arbitrary: j octet dc)
  case 0
  then show ?case by (simp add: octetLoop.simps [of t numStart i j octet dc])
next
  case (Suc n)
  then have lt: "j < i" by simp
  let ?d = "(of_char (t ! j) :: int) - of_char (CHR ''0'')"
  from Suc.prems(3) lt have dig: "isDigit (t ! j)"
    and nov: "\<not> octetWouldOverflow octet ?d"
    and rec: "octetLoop t numStart i (j + 1) (octet * 10 + ?d) (dc + 1) = Some v"
    by (auto simp: octetLoop.simps [of t numStart i j octet dc] Let_def split: if_splits)
  from dig have ad: "asciiDigit (t ! j)" by (simp only: isDigit_iff)
  have dval: "?d = int (of_char (t ! j) - 48)" and d9: "(of_char (t ! j) :: nat) - 48 \<le> 9"
    using digit_int [OF ad] by simp_all
  have d0: "0 \<le> ?d" and d9': "?d \<le> 9" using d9 unfolding dval by simp_all
  have le: "octet * 10 + ?d \<le> INT_MAX"
    by (rule overflow_guard [OF Suc.prems(1) d0 d9' nov])
  have nn: "0 \<le> octet * 10 + ?d" using Suc.prems(1) d0 by simp
  have ge: "octet \<le> octet * 10 + ?d" using Suc.prems(1) d0 by linarith
  have n: "n = i - (j + 1)" using Suc.hyps(2) by simp
  from Suc.hyps(1) [OF n nn le rec] show ?case using ge by linarith
qed

text \<open>
  C6.  For every text and every range, \<open>validateIPv4\<close> returns true exactly when the range
  lies inside the text and its bytes split on dots into exactly four groups, each a
  non-empty run of decimal digits with no leading zero (unless the group is the single
  digit zero) and a value of at most 255; this covers the requirement that the whole range
  is consumed.  The accumulator of the digit loop never overflows: started from a value
  between 0 and \<open>INT_MAX\<close> (the code starts it from 0), a run of the loop over one group
  that is not rejected returns a value that is at least the starting value and at most
  \<open>INT_MAX\<close>, so every accumulation on the way stayed in the range of \<open>int\<close>, and a group
  whose accumulation would leave that range is rejected.  The guard is what ensures it:
  whenever it lets a digit through, the new value \<open>octet * 10 + digit\<close> is at most
  \<open>INT_MAX\<close>.
\<close>

theorem validateIPv4_spec:
  "(validateIPv4 text start endp \<longleftrightarrow>
      (endp \<le> length text \<and> ipv4Spec (slice text start endp))) \<and>
   (\<forall>numStart i j octet digitCount v.
      0 \<le> octet \<and> octet \<le> INT_MAX \<and>
      octetLoop text numStart i j octet digitCount = Some v
      \<longrightarrow> octet \<le> v \<and> v \<le> INT_MAX) \<and>
   (\<forall>octet digit. 0 \<le> octet \<and> 0 \<le> digit \<and> digit \<le> 9 \<and> \<not> octetWouldOverflow octet digit
      \<longrightarrow> octet * 10 + digit \<le> INT_MAX)"
proof (intro conjI allI impI)
  show "validateIPv4 text start endp \<longleftrightarrow>
      (endp \<le> length text \<and> ipv4Spec (slice text start endp))"
    by (rule validateIPv4_iff)
next
  fix numStart i j octet digitCount v
  assume "0 \<le> octet \<and> octet \<le> INT_MAX \<and>
      octetLoop text numStart i j octet digitCount = Some v"
  then have "octet \<le> v \<and> v \<le> INT_MAX"
    using octetLoop_bound [of octet "text" numStart i j digitCount v] by blast
  then show "octet \<le> v" and "v \<le> INT_MAX" by simp_all
next
  fix octet digit :: int
  assume "0 \<le> octet \<and> 0 \<le> digit \<and> digit \<le> 9 \<and> \<not> octetWouldOverflow octet digit"
  then show "octet * 10 + digit \<le> INT_MAX" using overflow_guard by blast
qed

theorem validateIPv4_spec_witness:
  "validateIPv4 ''[192.168.1.1]'' 1 12 \<and> \<not> validateIPv4 ''[192.168.1.256]'' 1 14 \<and>
   \<not> validateIPv4 ''[192.168.01.1]'' 1 13 \<and>
   octetLoop ''[192.168.1.1]'' 1 4 1 0 0 = Some 192 \<and> (192 :: int) \<le> INT_MAX \<and>
   octetLoop ''[4294967296]'' 1 11 1 0 0 = None \<and>
   (25 :: int) * 10 + 5 \<le> INT_MAX"
proof -
  have a: "(12::nat) \<le> length ''[192.168.1.1]'' \<and> ipv4Spec (slice ''[192.168.1.1]'' 1 12)"
    by code_simp
  have b: "\<not> ipv4Spec (slice ''[192.168.1.256]'' 1 14)" by code_simp
  have c: "\<not> ipv4Spec (slice ''[192.168.01.1]'' 1 13)" by code_simp
  have d: "(0::int) \<le> 25 \<and> (0::int) \<le> 5 \<and> (5::int) \<le> 9 \<and> \<not> octetWouldOverflow 25 5"
    by (simp add: octetWouldOverflow_def INT_MAX_def)
  have e: "(0::int) \<le> 0 \<and> (0::int) \<le> INT_MAX \<and> octetLoop ''[192.168.1.1]'' 1 4 1 0 0 = Some 192"
    by code_simp
  have f: "octetLoop ''[4294967296]'' 1 11 1 0 0 = None" by code_simp
  note w1 = validateIPv4_spec [of "''[192.168.1.1]''" 1 12]
  note w2 = validateIPv4_spec [of "''[192.168.1.256]''" 1 14]
  note w3 = validateIPv4_spec [of "''[192.168.01.1]''" 1 13]
  have 1: "validateIPv4 ''[192.168.1.1]'' 1 12" using a w1 by blast
  have 2: "\<not> validateIPv4 ''[192.168.1.256]'' 1 14" using b w2 by blast
  have 3: "\<not> validateIPv4 ''[192.168.01.1]'' 1 13" using c w3 by blast
  have 4: "(192 :: int) \<le> INT_MAX"
    using e conjunct1 [OF conjunct2 [OF w1]] by blast
  have 5: "(25 :: int) * 10 + 5 \<le> INT_MAX"
    using d conjunct2 [OF conjunct2 [OF w1]] by blast
  show ?thesis using 1 2 3 4 5 e f by simp
qed

section \<open>Domain labels\<close>

lemma isAlphaNum_iff: "isAlphaNum c = asciiAlnum c"
proof -
  have "\<forall>c. isAlphaNum c = (asciiLetter c \<or> asciiDigit c)" by code_simp
  then show ?thesis by (simp add: asciiAlnum_def)
qed

lemma all_nat_split: "(\<forall>k. Q k) \<longleftrightarrow> Q 0 \<and> (\<forall>k. Q (Suc k))"
proof
  assume "Q 0 \<and> (\<forall>k. Q (Suc k))"
  then show "\<forall>k. Q k" by (metis not0_implies_Suc)
qed simp

lemma noConsecutiveDots_nth:
  "noConsecutiveDots s \<longleftrightarrow>
     (\<forall>k. Suc k < length s \<longrightarrow> \<not> (s ! k = CHR ''.'' \<and> s ! Suc k = CHR ''.''))"
proof (induction s rule: noConsecutiveDots.induct)
  case (1 a b cs)
  show ?case
    by (subst all_nat_split) (use 1 in simp)
qed simp_all

declare doubleDotLoop.simps [simp del] lastDotLoop.simps [simp del] labelCharsLoop.simps [simp del]
  labelsLoop.simps [simp del] tldLoop.simps [simp del]

lemma hd_slice: "a < b \<Longrightarrow> b \<le> length t \<Longrightarrow> hd (slice t a b) = t ! a"
  by (simp add: slice_Cons)

lemma last_slice: "a < b \<Longrightarrow> b \<le> length t \<Longrightarrow> last (slice t a b) = t ! (b - 1)"
proof -
  assume h: "a < b" "b \<le> length t"
  then have ne: "slice t a b \<noteq> []" by (simp add: slice_Cons)
  have "last (slice t a b) = slice t a b ! (length (slice t a b) - 1)"
    using ne by (rule last_conv_nth)
  also have "\<dots> = t ! (a + (b - a - 1))"
    using h by (simp add: nth_slice)
  finally show ?thesis using h by simp
qed

lemma doubleDotLoop_iff:
  "i \<le> endp \<Longrightarrow> endp \<le> length t \<Longrightarrow>
   doubleDotLoop t endp i prevDot \<longleftrightarrow>
     ((prevDot \<longrightarrow> \<not> (i < endp \<and> t ! i = CHR ''.'')) \<and>
      (\<forall>k. i \<le> k \<and> Suc k < endp \<longrightarrow> \<not> (t ! k = CHR ''.'' \<and> t ! Suc k = CHR ''.'')))"
proof (induction "endp - i" arbitrary: i prevDot)
  case 0
  then show ?case by (subst doubleDotLoop.simps) auto
next
  case (Suc n)
  then have lt: "i < endp" and n: "n = endp - (i + 1)" by simp_all
  have il: "i < length t" using lt Suc.prems by simp
  note eq = doubleDotLoop.simps [of t endp i prevDot]
  have IH: "\<And>pd. doubleDotLoop t endp (i + 1) pd \<longleftrightarrow>
     ((pd \<longrightarrow> \<not> (i + 1 < endp \<and> t ! (i + 1) = CHR ''.'')) \<and>
      (\<forall>k. i + 1 \<le> k \<and> Suc k < endp \<longrightarrow> \<not> (t ! k = CHR ''.'' \<and> t ! Suc k = CHR ''.'')))"
    by (rule Suc.hyps(1) [OF n]) (use lt Suc.prems in simp_all)
  have split: "\<And>P. (\<forall>k. i \<le> k \<and> Suc k < endp \<longrightarrow> P k) \<longleftrightarrow>
                 ((Suc i < endp \<longrightarrow> P i) \<and> (\<forall>k. i + 1 \<le> k \<and> Suc k < endp \<longrightarrow> P k))"
  proof -
    fix P
    have e: "\<And>k. (i \<le> k) = (k = i \<or> i + 1 \<le> k)" by arith
    show "(\<forall>k. i \<le> k \<and> Suc k < endp \<longrightarrow> P k) \<longleftrightarrow>
                 ((Suc i < endp \<longrightarrow> P i) \<and> (\<forall>k. i + 1 \<le> k \<and> Suc k < endp \<longrightarrow> P k))"
      unfolding e by blast
  qed
  show ?case
  proof (cases "t ! i = CHR ''.''")
    case dot: True
    show ?thesis
    proof (cases prevDot)
      case True
      have "doubleDotLoop t endp i prevDot = False"
        by (subst eq) (use True dot lt il in simp)
      then show ?thesis using True dot lt by simp
    next
      case False
      have "doubleDotLoop t endp i prevDot = doubleDotLoop t endp (i + 1) True"
        by (subst eq) (use False dot lt il in simp)
      then show ?thesis unfolding IH split [of "\<lambda>k. \<not> (t ! k = CHR ''.'' \<and> t ! Suc k = CHR ''.'')"]
        using False dot by auto
    qed
  next
    case nodot: False
    have "doubleDotLoop t endp i prevDot = doubleDotLoop t endp (i + 1) False"
      by (subst eq) (use nodot lt il in simp)
    then show ?thesis unfolding IH split [of "\<lambda>k. \<not> (t ! k = CHR ''.'' \<and> t ! Suc k = CHR ''.'')"]
      using nodot by auto
  qed
qed

lemma noConsecutiveDots_slice:
  assumes "a \<le> b" "b \<le> length t"
  shows "noConsecutiveDots (slice t a b) \<longleftrightarrow>
     (\<forall>k. a \<le> k \<and> Suc k < b \<longrightarrow> \<not> (t ! k = CHR ''.'' \<and> t ! Suc k = CHR ''.''))"
proof
  assume L: "noConsecutiveDots (slice t a b)"
  show "\<forall>k. a \<le> k \<and> Suc k < b \<longrightarrow> \<not> (t ! k = CHR ''.'' \<and> t ! Suc k = CHR ''.'')"
  proof (intro allI impI)
    fix k assume k: "a \<le> k \<and> Suc k < b"
    then have "Suc (k - a) < length (slice t a b)" using assms by auto
    with L have "\<not> (slice t a b ! (k - a) = CHR ''.'' \<and> slice t a b ! Suc (k - a) = CHR ''.'')"
      by (simp add: noConsecutiveDots_nth)
    moreover have "slice t a b ! (k - a) = t ! k" using k assms by (simp add: nth_slice)
    moreover have "slice t a b ! Suc (k - a) = t ! Suc k" using k assms by (simp add: nth_slice)
    ultimately show "\<not> (t ! k = CHR ''.'' \<and> t ! Suc k = CHR ''.'')" by simp
  qed
next
  assume R: "\<forall>k. a \<le> k \<and> Suc k < b \<longrightarrow> \<not> (t ! k = CHR ''.'' \<and> t ! Suc k = CHR ''.'')"
  show "noConsecutiveDots (slice t a b)"
    unfolding noConsecutiveDots_nth
  proof (intro allI impI)
    fix k assume "Suc k < length (slice t a b)"
    then have k: "a + Suc k < b" using assms by simp
    then have "\<not> (t ! (a + k) = CHR ''.'' \<and> t ! Suc (a + k) = CHR ''.'')" using R by simp
    moreover have "slice t a b ! k = t ! (a + k)" using k assms by (simp add: nth_slice)
    moreover have "slice t a b ! Suc k = t ! Suc (a + k)" using k assms nth_slice [of a "Suc k" b t] by simp
    ultimately show "\<not> (slice t a b ! k = CHR ''.'' \<and> slice t a b ! Suc k = CHR ''.'')" by simp
  qed
qed

lemma labelCharsLoop_iff:
  "le \<le> length t \<Longrightarrow>
   labelCharsLoop t le j \<longleftrightarrow> (\<forall>c \<in> set (slice t j le). asciiAlnum c \<or> c = CHR ''-'')"
proof (induction "le - j" arbitrary: j)
  case 0
  then show ?case by (subst labelCharsLoop.simps) simp
next
  case (Suc n)
  then have lt: "j < le" and n: "n = le - (j + 1)" by simp_all
  have sl: "slice t j le = t ! j # slice t (Suc j) le" using lt Suc.prems by (simp add: slice_Cons)
  have IH: "labelCharsLoop t le (j + 1) \<longleftrightarrow> (\<forall>c \<in> set (slice t (j + 1) le). asciiAlnum c \<or> c = CHR ''-'')"
    by (rule Suc.hyps(1) [OF n Suc.prems])
  show ?case
    by (subst labelCharsLoop.simps) (use lt IH in \<open>auto simp: sl isAlphaNum_iff\<close>)
qed

lemma tldLoop_iff:
  "endp \<le> length t \<Longrightarrow> tldLoop t endp i \<longleftrightarrow> (\<forall>c \<in> set (slice t i endp). asciiAlnum c)"
proof (induction "endp - i" arbitrary: i)
  case 0
  then show ?case by (subst tldLoop.simps) simp
next
  case (Suc n)
  then have lt: "i < endp" and n: "n = endp - (i + 1)" by simp_all
  have sl: "slice t i endp = t ! i # slice t (Suc i) endp" using lt Suc.prems by (simp add: slice_Cons)
  have IH: "tldLoop t endp (i + 1) \<longleftrightarrow> (\<forall>c \<in> set (slice t (i + 1) endp). asciiAlnum c)"
    by (rule Suc.hyps(1) [OF n Suc.prems])
  show ?case
    by (subst tldLoop.simps) (use lt IH in \<open>auto simp: sl isAlphaNum_iff\<close>)
qed

lemma labelOk_slice:
  assumes "ls < i" "i \<le> length t"
  shows "labelOk (slice t ls i) \<longleftrightarrow>
     (i - ls \<le> 63 \<and> t ! ls \<noteq> CHR ''-'' \<and> t ! (i - 1) \<noteq> CHR ''-'' \<and>
      (\<forall>c \<in> set (slice t ls i). asciiAlnum c \<or> c = CHR ''-''))"
  using assms by (auto simp: labelOk_def hd_slice last_slice)

text \<open>One label closed at position i (a dot or the end).\<close>

lemma labelsLoop_close:
  assumes "ls \<le> i" "i \<le> endp" "endp \<le> length t" "i = endp \<or> t ! i = CHR ''.''"
  shows "labelsLoop t endp i ls cnt =
     (if labelOk (slice t ls i) then labelsLoop t endp (i + 1) (i + 1) (cnt + 1) else None)"
proof (cases "ls = i")
  case True
  have "labelsLoop t endp i ls cnt = None"
    by (subst labelsLoop.simps) (use True assms in simp)
  moreover have "\<not> labelOk (slice t ls i)" using True by (simp add: labelOk_def)
  ultimately show ?thesis by simp
next
  case False
  then have lt: "ls < i" using assms by simp
  have il: "i \<le> length t" using assms by simp
  have e1: "ls + (i - ls) = i" using lt by simp
  have e2: "ls + (i - ls) - 1 = i - 1" using lt by simp
  show ?thesis
    by (subst labelsLoop.simps)
       (use lt assms in \<open>auto simp: labelOk_slice [OF lt il] Let_def MAX_LABEL_LENGTH_def
           labelCharsLoop_iff e1 e2\<close>)
qed

lemma labelsLoop_iff:
  "ls \<le> i \<Longrightarrow> i \<le> endp \<Longrightarrow> endp \<le> length t \<Longrightarrow> CHR ''.'' \<notin> set (slice t ls i) \<Longrightarrow>
   labelsLoop t endp i ls cnt =
     (if \<forall>l \<in> set (splitOn (CHR ''.'') (slice t ls endp)). labelOk l
      then Some (cnt + length (splitOn (CHR ''.'') (slice t ls endp))) else None)"
proof (induction "endp - i" arbitrary: i ls cnt)
  case 0
  then have ie: "i = endp" by simp
  have sp: "splitOn (CHR ''.'') (slice t ls endp) = [slice t ls endp]"
    using "0.prems" ie by (simp add: splitOn_nodot)
  have "labelsLoop t endp i ls cnt =
     (if labelOk (slice t ls i) then labelsLoop t endp (i + 1) (i + 1) (cnt + 1) else None)"
    by (rule labelsLoop_close) (use "0.prems" ie in simp_all)
  moreover have "labelsLoop t endp (i + 1) (i + 1) (cnt + 1) = Some (cnt + 1)"
    by (subst labelsLoop.simps) (use ie in simp)
  ultimately show ?case unfolding sp using ie by simp
next
  case (Suc n)
  then have lt: "i < endp" and n: "n = endp - (i + 1)" by simp_all
  let ?G = "slice t ls i"
  let ?R = "slice t (Suc i) endp"
  show ?case
  proof (cases "t ! i = CHR ''.''")
    case dot: True
    have "slice t ls endp = ?G @ slice t i endp"
      by (rule slice_append) (use Suc.prems lt in simp_all)
    also have "slice t i endp = CHR ''.'' # ?R"
      using lt Suc.prems dot by (simp add: slice_Cons)
    finally have sp: "splitOn (CHR ''.'') (slice t ls endp) = ?G # splitOn (CHR ''.'') ?R"
      using Suc.prems by (simp add: splitOn_nodot_sep)
    have c: "labelsLoop t endp i ls cnt =
       (if labelOk ?G then labelsLoop t endp (i + 1) (i + 1) (cnt + 1) else None)"
      by (rule labelsLoop_close) (use Suc.prems lt dot in simp_all)
    have IH: "labelsLoop t endp (i + 1) (i + 1) (cnt + 1) =
       (if \<forall>l \<in> set (splitOn (CHR ''.'') (slice t (i + 1) endp)). labelOk l
        then Some (cnt + 1 + length (splitOn (CHR ''.'') (slice t (i + 1) endp))) else None)"
      by (rule Suc.hyps(1) [OF n]) (use lt Suc.prems in simp_all)
    show ?thesis unfolding c IH sp by simp
  next
    case nodot: False
    have r: "labelsLoop t endp i ls cnt = labelsLoop t endp (i + 1) ls cnt"
      by (subst labelsLoop.simps) (use nodot lt in simp)
    have "slice t ls (Suc i) = ?G @ [t ! i]"
      using Suc.prems lt by (simp add: slice_snoc)
    then have nd: "CHR ''.'' \<notin> set (slice t ls (i + 1))"
      using Suc.prems nodot by simp
    show ?thesis
      unfolding r by (rule Suc.hyps(1) [OF n]) (use lt Suc.prems nd in simp_all)
  qed
qed

lemma lastDotLoop_None:
  "i \<le> length t \<Longrightarrow> lastDotLoop t start i = None \<longleftrightarrow> CHR ''.'' \<notin> set (slice t start i)"
proof (induction "i - start" arbitrary: i)
  case 0
  then show ?case by (subst lastDotLoop.simps) simp
next
  case (Suc n)
  then have lt: "start < i" and n: "n = (i - 1) - start" by simp_all
  have sl: "slice t start i = slice t start (i - 1) @ [t ! (i - 1)]"
    using slice_snoc [of start "i - 1" t] lt Suc.prems by simp
  have IH: "lastDotLoop t start (i - 1) = None \<longleftrightarrow> CHR ''.'' \<notin> set (slice t start (i - 1))"
    by (rule Suc.hyps(1) [OF n]) (use Suc.prems in simp)
  show ?case
    by (subst lastDotLoop.simps) (use lt IH in \<open>auto simp: sl\<close>)
qed

lemma lastDotLoop_Some:
  "i \<le> length t \<Longrightarrow> lastDotLoop t start i = Some p \<Longrightarrow>
   start \<le> p \<and> p < i \<and> t ! p = CHR ''.'' \<and> CHR ''.'' \<notin> set (slice t (p + 1) i)"
proof (induction "i - start" arbitrary: i)
  case 0
  then show ?case by (subst (asm) lastDotLoop.simps) simp
next
  case (Suc n)
  then have lt: "start < i" and n: "n = (i - 1) - start" by simp_all
  show ?case
  proof (cases "t ! (i - 1) = CHR ''.''")
    case True
    have "lastDotLoop t start i = Some (i - 1)"
      by (subst lastDotLoop.simps) (use lt True in simp)
    then have "p = i - 1" using Suc.prems by simp
    then show ?thesis using lt True by simp
  next
    case False
    have "lastDotLoop t start i = lastDotLoop t start (i - 1)"
      by (subst lastDotLoop.simps) (use lt False in simp)
    then have "lastDotLoop t start (i - 1) = Some p" using Suc.prems by simp
    then have IH: "start \<le> p \<and> p < i - 1 \<and> t ! p = CHR ''.'' \<and> CHR ''.'' \<notin> set (slice t (p + 1) (i - 1))"
      using Suc.hyps(1) [OF n] Suc.prems by simp
    have "slice t (p + 1) i = slice t (p + 1) (i - 1) @ [t ! (i - 1)]"
      using slice_snoc [of "p + 1" "i - 1" t] IH lt Suc.prems by simp
    then show ?thesis using IH False by auto
  qed
qed

lemma length_splitOn_ge2: "sep \<in> set s \<Longrightarrow> 2 \<le> length (splitOn sep s)"
  by (induction s) (auto simp: Suc_le_eq)

lemma length_splitOn_1: "sep \<notin> set s \<Longrightarrow> length (splitOn sep s) = 1"
  by (simp add: splitOn_nodot)

lemma last_splitOn:
  "sep \<notin> set g \<Longrightarrow> last (splitOn sep (a @ sep # g)) = g"
proof (induction a)
  case Nil
  then show ?case by (simp add: splitOn_nodot)
next
  case (Cons c a)
  let ?r = "splitOn sep (a @ sep # g)"
  have "2 \<le> length ?r" by (rule length_splitOn_ge2) simp
  then have "tl ?r \<noteq> []" by (cases ?r) auto
  moreover have "last (tl ?r) = last ?r" using \<open>tl ?r \<noteq> []\<close> by (cases ?r) auto
  ultimately show ?case using Cons by simp
qed


lemma validateDomainLabels_iff:
  "validateDomainLabels t start endp \<longleftrightarrow> (endp \<le> length t \<and> domainLabelsSpec (slice t start endp))"
proof (cases "start \<ge> endp \<or> endp > length t")
  case True
  then show ?thesis by (auto simp: validateDomainLabels_def domainLabelsSpec_def)
next
  case False
  then have h: "start < endp" "endp \<le> length t" by simp_all
  let ?w = "slice t start endp"
  let ?sp = "splitOn (CHR ''.'') ?w"
  have len: "length ?w = endp - start" using h by simp
  have hdw: "hd ?w = t ! start" using h by (simp add: hd_slice)
  have lastw: "last ?w = t ! (endp - 1)" using h by (simp add: last_slice)
  have dd: "doubleDotLoop t endp start False \<longleftrightarrow> noConsecutiveDots ?w"
    using doubleDotLoop_iff [of start endp t False] noConsecutiveDots_slice [of start endp t] h
    by simp
  have ll: "labelsLoop t endp start start 0 =
     (if \<forall>l \<in> set ?sp. labelOk l then Some (0 + length ?sp) else None)"
    by (rule labelsLoop_iff) (use h in simp_all)
  show ?thesis
  proof (cases "endp - start > MAX_DOMAIN_PART \<or> t ! start = CHR ''.'' \<or> t ! start = CHR ''-'' \<or>
                t ! (endp - 1) = CHR ''.'' \<or> t ! (endp - 1) = CHR ''-'' \<or>
                \<not> doubleDotLoop t endp start False \<or> \<not> (\<forall>l \<in> set ?sp. labelOk l)")
    case True
    then have "\<not> validateDomainLabels t start endp"
      using h by (auto simp: validateDomainLabels_def ll Let_def)
    moreover have "\<not> domainLabelsSpec ?w"
      using True unfolding domainLabelsSpec_def len hdw lastw dd [symmetric] MAX_DOMAIN_PART_def
      by auto
    ultimately show ?thesis by simp
  next
    case ok: False
    then have basics: "1 \<le> length ?w \<and> length ?w \<le> 253 \<and>
        hd ?w \<noteq> CHR ''.'' \<and> hd ?w \<noteq> CHR ''-'' \<and> last ?w \<noteq> CHR ''.'' \<and> last ?w \<noteq> CHR ''-'' \<and>
        noConsecutiveDots ?w \<and> (\<forall>l \<in> set ?sp. labelOk l)"
      unfolding len hdw lastw dd [symmetric] MAX_DOMAIN_PART_def using h by auto
    have ll': "labelsLoop t endp start start 0 = Some (length ?sp)"
      using ll ok by simp
    show ?thesis
    proof (cases "lastDotLoop t start endp")
      case None
      then have "CHR ''.'' \<notin> set ?w" using lastDotLoop_None [of endp t start] h by simp
      then have l1: "length ?sp = 1" by (rule length_splitOn_1)
      have "validateDomainLabels t start endp"
        using h ok None by (auto simp: validateDomainLabels_def ll' Let_def)
      moreover have "domainLabelsSpec ?w"
        unfolding domainLabelsSpec_def using basics l1 by simp
      ultimately show ?thesis using h by simp
    next
      case (Some p)
      from lastDotLoop_Some [OF h(2) Some]
      have p: "start \<le> p" "p < endp" "t ! p = CHR ''.''" "CHR ''.'' \<notin> set (slice t (p + 1) endp)"
        by simp_all
      have "?w = slice t start p @ slice t p endp"
        by (rule slice_append) (use p h in simp_all)
      also have "slice t p endp = CHR ''.'' # slice t (p + 1) endp"
        using p h by (simp add: slice_Cons)
      finally have w: "?w = slice t start p @ CHR ''.'' # slice t (p + 1) endp" .
      have lastsp: "last ?sp = slice t (p + 1) endp"
        unfolding w using p(4) by (rule last_splitOn)
      have "CHR ''.'' \<in> set ?w" unfolding w by simp
      then have l2: "2 \<le> length ?sp" by (rule length_splitOn_ge2)
      have pe: "p + 1 < endp"
      proof (rule ccontr)
        assume "\<not> p + 1 < endp"
        then have "p = endp - 1" using p by simp
        then show False using p(3) ok by simp
      qed
      have "validateDomainLabels t start endp \<longleftrightarrow> tldLoop t endp (p + 1)"
        using h ok Some l2 pe by (auto simp: validateDomainLabels_def ll' Let_def)
      also have "\<dots> \<longleftrightarrow> (\<forall>c \<in> set (slice t (p + 1) endp). asciiAlnum c)"
        by (rule tldLoop_iff) (rule h(2))
      also have "\<dots> \<longleftrightarrow> domainLabelsSpec ?w"
        unfolding domainLabelsSpec_def using basics l2 lastsp by simp
      finally show ?thesis using h by simp
    qed
  qed
qed

lemma validateDomainPart_labels:
  assumes "start < endp \<Longrightarrow> endp \<le> length t \<Longrightarrow> t ! start \<noteq> CHR ''[''"
  shows "validateDomainPart t start endp \<longleftrightarrow>
         (endp \<le> length t \<and> domainLabelsSpec (slice t start endp))"
proof (cases "start \<ge> endp \<or> endp > length t")
  case True
  then show ?thesis by (auto simp: validateDomainPart_def domainLabelsSpec_def)
next
  case False
  then have "t ! start \<noteq> CHR ''[''" using assms by simp
  then have "validateDomainPart t start endp = validateDomainLabels t start endp"
    using False by (simp add: validateDomainPart_def)
  then show ?thesis by (simp add: validateDomainLabels_iff)
qed

text \<open>
  C5.  For every text and every range whose first byte is not an opening bracket,
  \<open>DomainPartValidator::validate\<close> returns true exactly when the range lies inside the text,
  is 1 to 253 bytes long, neither starts nor ends with a dot or a hyphen, has no two
  consecutive dots, and splits on dots into labels that are each 1 to 63 bytes of letters,
  digits and hyphens with no hyphen first or last; when there are at least two labels, the
  last one holds letters and digits only.  A range of a single label is accepted.
\<close>

theorem validateDomainPart_spec:
  assumes "start < endp \<Longrightarrow> endp \<le> length text \<Longrightarrow> text ! start \<noteq> CHR ''[''"
  shows "validateDomainPart text start endp \<longleftrightarrow>
         (endp \<le> length text \<and> domainLabelsSpec (slice text start endp))"
  using assms by (rule validateDomainPart_labels)

theorem validateDomainPart_spec_witness:
  "validateDomainPart ''user@example.com'' 5 16 \<and> validateDomainPart ''user@localhost'' 5 14 \<and>
   \<not> validateDomainPart ''user@example.c-m'' 5 16"
proof -
  have a: "''user@example.com'' ! 5 \<noteq> CHR ''[''" by simp
  have b: "''user@localhost'' ! 5 \<noteq> CHR ''[''" by simp
  have c: "''user@example.c-m'' ! 5 \<noteq> CHR ''[''" by simp
  have a': "(16::nat) \<le> length ''user@example.com'' \<and> domainLabelsSpec (slice ''user@example.com'' 5 16)"
    by code_simp
  have b': "(14::nat) \<le> length ''user@localhost'' \<and> domainLabelsSpec (slice ''user@localhost'' 5 14)"
    by code_simp
  have c': "\<not> domainLabelsSpec (slice ''user@example.c-m'' 5 16)"
    by code_simp
  show ?thesis
    using a' b' c' validateDomainPart_spec [of 5 16 "''user@example.com''", OF a]
      validateDomainPart_spec [of 5 14 "''user@localhost''", OF b]
      validateDomainPart_spec [of 5 16 "''user@example.c-m''", OF c]
    by blast
qed

section \<open>Exact validation\<close>

declare atSearchLoop.simps [simp del]

lemma unquotedAts_range:
  "p \<in> set (unquotedAts cs i q e) \<Longrightarrow> i \<le> p \<and> p < i + length cs \<and> cs ! (p - i) = CHR ''@''"
proof (induction cs arbitrary: i q e)
  case Nil
  then show ?case by simp
next
  case (Cons c cs)
  have IH: "\<And>q' e'. p \<in> set (unquotedAts cs (Suc i) q' e') \<Longrightarrow> ?case"
  proof -
    fix q' e' assume "p \<in> set (unquotedAts cs (Suc i) q' e')"
    from Cons.IH [OF this]
    have "Suc i \<le> p \<and> p < Suc i + length cs \<and> cs ! (p - (Suc i)) = CHR ''@''" .
    then show ?case by (auto simp: nth_Cons')
  qed
  consider (esc) "e"
    | (bs) "\<not> e" "c = CHR 0x5C \<and> q"
    | (qu) "\<not> e" "\<not> (c = CHR 0x5C \<and> q)" "c = CHR 0x22"
    | (at) "\<not> e" "\<not> (c = CHR 0x5C \<and> q)" "c \<noteq> CHR 0x22" "c = CHR ''@'' \<and> \<not> q"
    | (other) "\<not> e" "\<not> (c = CHR 0x5C \<and> q)" "c \<noteq> CHR 0x22" "\<not> (c = CHR ''@'' \<and> \<not> q)"
    by blast
  then show ?case
  proof cases
    case esc
    then have "unquotedAts (c # cs) i q e = unquotedAts cs (Suc i) q False" by simp
    then show ?thesis using Cons.prems IH by simp
  next
    case bs
    then have "unquotedAts (c # cs) i q e = unquotedAts cs (Suc i) q True" by simp
    then show ?thesis using Cons.prems IH by simp
  next
    case qu
    then have "unquotedAts (c # cs) i q e = unquotedAts cs (Suc i) (\<not> q) False" by simp
    then show ?thesis using Cons.prems IH by simp
  next
    case at
    then have "unquotedAts (c # cs) i q e = i # unquotedAts cs (Suc i) q False" by simp
    then have "p = i \<or> p \<in> set (unquotedAts cs (Suc i) q False)" using Cons.prems by simp
    then show ?thesis
    proof
      assume "p = i" then show ?thesis using at by simp
    next
      assume "p \<in> set (unquotedAts cs (Suc i) q False)" then show ?thesis by (rule IH)
    qed
  next
    case other
    then have "unquotedAts (c # cs) i q e = unquotedAts cs (Suc i) q False" by auto
    then show ?thesis using Cons.prems IH by simp
  qed
qed

definition atSearchSpec :: "nat option \<Rightarrow> nat list \<Rightarrow> nat option option" where
  "atSearchSpec atPos ps =
     (case atPos of
        None \<Rightarrow> (case ps of [] \<Rightarrow> Some None | [p] \<Rightarrow> Some (Some p) | _ \<Rightarrow> None)
      | Some a \<Rightarrow> (if ps = [] then Some (Some a) else None))"

lemma atSearchSpec_Cons:
  "atSearchSpec atPos (i # ps) = (if atPos \<noteq> None then None else atSearchSpec (Some i) ps)"
  by (cases atPos; cases ps) (simp_all add: atSearchSpec_def)

lemma atSearchLoop_spec:
  "i \<le> length s \<Longrightarrow>
   atSearchLoop s i atPos q e = atSearchSpec atPos (unquotedAts (drop i s) i q e)"
proof (induction "length s - i" arbitrary: i atPos q e)
  case 0
  then have "atSearchLoop s i atPos q e = Some atPos"
    by (subst atSearchLoop.simps) simp
  moreover have "atSearchSpec atPos (unquotedAts (drop i s) i q e) = Some atPos"
    using 0 by (cases atPos) (simp_all add: atSearchSpec_def)
  ultimately show ?case by simp
next
  case (Suc n)
  then have lt: "i < length s" and n: "n = length s - (Suc i)" by simp_all
  let ?c = "s ! i"
  let ?rest = "drop (Suc i) s"
  have dr: "drop i s = ?c # ?rest" using lt by (simp add: Cons_nth_drop_Suc)
  have IH: "\<And>a q' e'. atSearchLoop s (Suc i) a q' e' =
              atSearchSpec a (unquotedAts ?rest (Suc i) q' e')"
    by (rule Suc.hyps(1) [OF n]) (use lt in simp)
  note eq = atSearchLoop.simps [of s i atPos q e]
  consider (esc) "e"
    | (bs) "\<not> e" "?c = CHR 0x5C \<and> q"
    | (qu) "\<not> e" "\<not> (?c = CHR 0x5C \<and> q)" "?c = CHR 0x22"
    | (at) "\<not> e" "\<not> (?c = CHR 0x5C \<and> q)" "?c \<noteq> CHR 0x22" "?c = CHR ''@'' \<and> \<not> q"
    | (other) "\<not> e" "\<not> (?c = CHR 0x5C \<and> q)" "?c \<noteq> CHR 0x22" "\<not> (?c = CHR ''@'' \<and> \<not> q)"
    by blast
  then show ?case
  proof cases
    case esc
    have "atSearchLoop s i atPos q e = atSearchLoop s (Suc i) atPos q False"
      by (subst eq) (use esc lt in simp)
    moreover have "unquotedAts (?c # ?rest) i q e = unquotedAts ?rest (Suc i) q False"
      using esc by simp
    ultimately show ?thesis unfolding dr by (simp add: IH)
  next
    case bs
    have "atSearchLoop s i atPos q e = atSearchLoop s (Suc i) atPos q True"
      by (subst eq) (use bs lt in simp)
    moreover have "unquotedAts (?c # ?rest) i q e = unquotedAts ?rest (Suc i) q True"
      using bs by simp
    ultimately show ?thesis unfolding dr by (simp add: IH)
  next
    case qu
    have "atSearchLoop s i atPos q e = atSearchLoop s (Suc i) atPos (\<not> q) False"
      by (subst eq) (use qu lt in simp)
    moreover have "unquotedAts (?c # ?rest) i q e = unquotedAts ?rest (Suc i) (\<not> q) False"
      using qu by simp
    ultimately show ?thesis unfolding dr by (simp add: IH)
  next
    case at
    have "atSearchLoop s i atPos q e =
          (if atPos \<noteq> None then None else atSearchLoop s (Suc i) (Some i) q False)"
      by (subst eq) (use at lt in simp)
    moreover have "unquotedAts (?c # ?rest) i q e = i # unquotedAts ?rest (Suc i) q False"
      using at by simp
    ultimately show ?thesis unfolding dr by (simp add: IH atSearchSpec_Cons)
  next
    case other
    have "atSearchLoop s i atPos q e = atSearchLoop s (Suc i) atPos q False"
      by (subst eq) (use other lt in auto)
    moreover have "unquotedAts (?c # ?rest) i q e = unquotedAts ?rest (Suc i) q False"
      using other by auto
    ultimately show ?thesis unfolding dr by (simp add: IH)
  qed
qed

lemma isValidText_unquoted:
  assumes "isValidText s"
  shows "\<exists>p. unquotedAts s 0 False False = [p] \<and> 0 < p \<and> p + 1 < length s \<and> s ! p = CHR ''@''"
proof -
  have sp: "atSearchLoop s 0 None False False =
            atSearchSpec None (unquotedAts s 0 False False)"
    using atSearchLoop_spec [of 0 s None False False] by simp
  from assms obtain p where p: "atSearchLoop s 0 None False False = Some (Some p)"
    and b: "\<not> (p = 0 \<or> p \<ge> length s - 1)"
    by (auto simp: isValidText_def Let_def split: option.splits if_splits)
  from p sp have u: "unquotedAts s 0 False False = [p]"
    by (auto simp: atSearchSpec_def split: list.splits)
  then have "p \<in> set (unquotedAts s 0 False False)" by simp
  from unquotedAts_range [OF this] have "s ! p = CHR ''@''" by simp
  with u b show ?thesis by auto
qed

lemma isValid_View:
  assumes "isValid (View s)"
  shows "5 \<le> length s \<and> length s \<le> 320 \<and>
     (\<exists>p. unquotedAts s 0 False False = [p] \<and> 0 < p \<and> p + 1 < length s \<and> s ! p = CHR ''@'')"
proof -
  from assms have len: "5 \<le> length s \<and> length s \<le> 320" and v: "isValidText s"
    by (auto simp: isValid_def Let_def MIN_EMAIL_SIZE_def MAX_EMAIL_SIZE_def split: if_splits)
  from isValidText_unquoted [OF v] len show ?thesis by simp
qed

text \<open>
  C4.  Whenever \<open>isValid\<close> accepts a byte string, the string is 5 to 320 bytes long and
  has exactly one \<open>@\<close> outside quoted regions; that \<open>@\<close> is neither the first nor the last
  byte.
\<close>

theorem isValid_single_unquoted_at:
  assumes "isValid (View s)"
  shows "5 \<le> length s \<and> length s \<le> 320 \<and>
     (\<exists>p. unquotedAts s 0 False False = [p] \<and> 0 < p \<and> p + 1 < length s \<and> s ! p = CHR ''@'')"
  using assms by (rule isValid_View)

theorem isValid_single_unquoted_at_witness:
  "isValid (View (CHR 0x22 # ''a@b'' @ CHR 0x22 # ''@example.com'')) \<and>
   unquotedAts (CHR 0x22 # ''a@b'' @ CHR 0x22 # ''@example.com'') 0 False False = [5] \<and>
   length (CHR 0x22 # ''a@b'' @ CHR 0x22 # ''@example.com'') = 17"
proof -
  have v: "isValid (View (CHR 0x22 # ''a@b'' @ CHR 0x22 # ''@example.com''))" by code_simp
  have u: "unquotedAts (CHR 0x22 # ''a@b'' @ CHR 0x22 # ''@example.com'') 0 False False = [5]"
    by code_simp
  from isValid_single_unquoted_at [OF v] u v show ?thesis by simp
qed

section \<open>The boundary search\<close>

declare findFirstAlnumLoop.simps [simp del] findFirstAtextLoop.simps [simp del]
  domainScanLoop.simps [simp del] trimRightLoop.simps [simp del] lookbackLoop.simps [simp del]
  leftScanLoop.simps [simp del] leadingDotLoop.simps [simp del] memchr.simps [simp del]
  nearbyAtLoop.simps [simp del]

lemma char_classes:
  "(isAtext c \<longrightarrow> \<not> isInvalidLocalChar c) \<and>
   (isQuoteChar c \<and> \<not> isInvalidLocalChar c \<longrightarrow> isAtext c) \<and>
   (isDomainChar c = (isAlphaNum c \<or> c = CHR ''-'' \<or> c = CHR ''.'')) \<and>
   (isAlphaNum c \<longrightarrow> isAtext c)"
proof -
  have "\<forall>c. (isAtext c \<longrightarrow> \<not> isInvalidLocalChar c) \<and>
       (isQuoteChar c \<and> \<not> isInvalidLocalChar c \<longrightarrow> isAtext c) \<and>
       (isDomainChar c = (isAlphaNum c \<or> c = CHR ''-'' \<or> c = CHR ''.'')) \<and>
       (isAlphaNum c \<longrightarrow> isAtext c)"
    by code_simp
  then show ?thesis by blast
qed

lemma isAtext_dot: "isAtext (CHR ''.'')" by code_simp
lemma not_isAtext_at: "\<not> isAtext (CHR ''@'')" by code_simp
lemma isInvalid_at: "isInvalidLocalChar (CHR ''@'')" by code_simp
lemma not_isAlphaNum_specials:
  "\<not> isAlphaNum (CHR ''@'')" "\<not> isAlphaNum (CHR ''['')" "\<not> isAlphaNum (CHR ''.'')"
  "\<not> isAlphaNum (CHR ''-'')"
  by code_simp+

lemma memchr_Some:
  "memchr t c p = Some a \<Longrightarrow> p \<le> a \<and> a < length t \<and> t ! a = c \<and> (\<forall>k. p \<le> k \<and> k < a \<longrightarrow> t ! k \<noteq> c)"
proof (induction "length t - p" arbitrary: p)
  case 0
  then show ?case by (subst (asm) memchr.simps) simp
next
  case (Suc n)
  then have lt: "p < length t" and n: "n = length t - Suc p" by simp_all
  show ?case
  proof (cases "t ! p = c")
    case True
    have "memchr t c p = Some p" by (subst memchr.simps) (use lt True in simp)
    then show ?thesis using Suc.prems lt True by auto
  next
    case False
    have "memchr t c p = memchr t c (Suc p)" by (subst memchr.simps) (use lt False in simp)
    then have "memchr t c (Suc p) = Some a" using Suc.prems by simp
    from Suc.hyps(1) [OF n this]
    have IH: "Suc p \<le> a \<and> a < length t \<and> t ! a = c \<and> (\<forall>k. Suc p \<le> k \<and> k < a \<longrightarrow> t ! k \<noteq> c)" .
    have "\<forall>k. p \<le> k \<and> k < a \<longrightarrow> t ! k \<noteq> c"
    proof (intro allI impI)
      fix k assume k: "p \<le> k \<and> k < a"
      show "t ! k \<noteq> c"
      proof (cases "k = p")
        case True then show ?thesis using False by simp
      next
        case False then have "Suc p \<le> k" using k by simp
        then show ?thesis using IH k by simp
      qed
    qed
    then show ?thesis using IH by simp
  qed
qed

lemma memchr_None:
  "memchr t c p = None \<Longrightarrow> \<forall>k. p \<le> k \<and> k < length t \<longrightarrow> t ! k \<noteq> c"
proof (induction "length t - p" arbitrary: p)
  case 0
  then show ?case by auto
next
  case (Suc n)
  then have lt: "p < length t" and n: "n = length t - Suc p" by simp_all
  have nc: "t ! p \<noteq> c" using Suc.prems lt by (subst (asm) memchr.simps) (auto split: if_splits)
  then have "memchr t c p = memchr t c (Suc p)" by (subst memchr.simps) (use lt in simp)
  then have "memchr t c (Suc p) = None" using Suc.prems by simp
  from Suc.hyps(1) [OF n this] have IH: "\<forall>k. Suc p \<le> k \<and> k < length t \<longrightarrow> t ! k \<noteq> c" .
  show ?case
  proof (intro allI impI)
    fix k assume k: "p \<le> k \<and> k < length t"
    show "t ! k \<noteq> c"
    proof (cases "k = p")
      case True then show ?thesis using nc by simp
    next
      case False then have "Suc p \<le> k" using k by simp
      then show ?thesis using IH k by simp
    qed
  qed
qed

lemma findFirstAtextLoop_None:
  "findFirstAtextLoop t limit p = None \<Longrightarrow> \<forall>k. p \<le> k \<and> k < limit \<longrightarrow> \<not> isAtext (t ! k)"
proof (induction "limit - p" arbitrary: p)
  case 0
  then show ?case by auto
next
  case (Suc n)
  then have lt: "p < limit" and n: "n = limit - Suc p" by simp_all
  have nc: "\<not> isAtext (t ! p)"
    using Suc.prems lt by (subst (asm) findFirstAtextLoop.simps) (auto split: if_splits)
  then have "findFirstAtextLoop t limit p = findFirstAtextLoop t limit (Suc p)"
    by (subst findFirstAtextLoop.simps) (use lt in simp)
  then have "findFirstAtextLoop t limit (Suc p) = None" using Suc.prems by simp
  from Suc.hyps(1) [OF n this] have IH: "\<forall>k. Suc p \<le> k \<and> k < limit \<longrightarrow> \<not> isAtext (t ! k)" .
  show ?case
  proof (intro allI impI)
    fix k assume k: "p \<le> k \<and> k < limit"
    show "\<not> isAtext (t ! k)"
    proof (cases "k = p")
      case True then show ?thesis using nc by simp
    next
      case False then have "Suc p \<le> k" using k by simp
      then show ?thesis using IH k by simp
    qed
  qed
qed

lemma findFirstAtextLoop_Some:
  "findFirstAtextLoop t limit p = Some r \<Longrightarrow> p \<le> r \<and> r < limit \<and> isAtext (t ! r)"
proof (induction "limit - p" arbitrary: p)
  case 0
  then show ?case by (subst (asm) findFirstAtextLoop.simps) simp
next
  case (Suc n)
  then have lt: "p < limit" and n: "n = limit - Suc p" by simp_all
  show ?case
  proof (cases "isAtext (t ! p)")
    case True
    have "findFirstAtextLoop t limit p = Some p"
      by (subst findFirstAtextLoop.simps) (use lt True in simp)
    then show ?thesis using Suc.prems lt True by simp
  next
    case False
    have "findFirstAtextLoop t limit p = findFirstAtextLoop t limit (Suc p)"
      by (subst findFirstAtextLoop.simps) (use lt False in simp)
    then have "findFirstAtextLoop t limit (Suc p) = Some r" using Suc.prems by simp
    from Suc.hyps(1) [OF n this] show ?thesis by simp
  qed
qed

lemma findFirstAlnumLoop_Some:
  "findFirstAlnumLoop t limit p = Some r \<Longrightarrow> p \<le> r \<and> r < limit \<and> isAlphaNum (t ! r)"
proof (induction "limit - p" arbitrary: p)
  case 0
  then show ?case by (subst (asm) findFirstAlnumLoop.simps) simp
next
  case (Suc n)
  then have lt: "p < limit" and n: "n = limit - Suc p" by simp_all
  show ?case
  proof (cases "isAlphaNum (t ! p)")
    case True
    have "findFirstAlnumLoop t limit p = Some p"
      by (subst findFirstAlnumLoop.simps) (use lt True in simp)
    then show ?thesis using Suc.prems lt True by simp
  next
    case False
    have "findFirstAlnumLoop t limit p = findFirstAlnumLoop t limit (Suc p)"
      by (subst findFirstAlnumLoop.simps) (use lt False in simp)
    then have "findFirstAlnumLoop t limit (Suc p) = Some r" using Suc.prems by simp
    from Suc.hyps(1) [OF n this] show ?thesis by simp
  qed
qed


text \<open>One iteration of the left scan.\<close>

lemma leftScan_step:
  assumes "effMin < start"
  shows
   "(leftScanLoop t atPos endp effMin start = (start, False, atPos) \<and>
       (t ! (start - 1) = CHR ''@'' \<or> (isQuoteChar (t ! (start - 1)) \<and> endp < length t \<and> t ! endp = t ! (start - 1)) \<or> \<not> isAtext (t ! (start - 1)))) \<or>
    (leftScanLoop t atPos endp effMin start = (start, True, start - 1) \<and>
       t ! (start - 1) = CHR ''.'' \<and> effMin + 1 < start) \<or>
    (leftScanLoop t atPos endp effMin start = (start, True, start) \<and> isInvalidLocalChar (t ! (start - 1))) \<or>
    (leftScanLoop t atPos endp effMin start = (start - 1, False, atPos) \<and>
       start = effMin + 1 \<and> isAtext (t ! (start - 1)) \<and> isQuoteChar (t ! (start - 1))) \<or>
    (leftScanLoop t atPos endp effMin start = leftScanLoop t atPos endp effMin (start - 1) \<and>
       isAtext (t ! (start - 1)) \<and> t ! (start - 1) \<noteq> CHR ''@'' \<and>
       \<not> (t ! (start - 1) = CHR ''.'' \<and> effMin + 1 < start \<and> t ! (start - 2) = CHR ''.''))"
proof -
  let ?c = "t ! (start - 1)"
  note eq = leftScanLoop.simps [of t atPos endp effMin start]
  note cc = char_classes [of ?c]
  let ?dd = "?c = CHR ''.'' \<and> start > effMin + 1 \<and> start \<ge> 2 \<and> t ! (start - 2) = CHR ''.''"
  consider (at) "?c = CHR ''@''"
    | (dd) "?c \<noteq> CHR ''@''" "?dd"
    | (bad) "?c \<noteq> CHR ''@''" "\<not> ?dd" "isInvalidLocalChar ?c"
    | (quote) "?c \<noteq> CHR ''@''" "\<not> ?dd" "\<not> isInvalidLocalChar ?c" "isQuoteChar ?c"
    | (dot) "?c \<noteq> CHR ''@''" "\<not> ?dd" "\<not> isInvalidLocalChar ?c" "\<not> isQuoteChar ?c" "?c = CHR ''.''"
    | (atext) "?c \<noteq> CHR ''@''" "\<not> ?dd" "\<not> isInvalidLocalChar ?c" "\<not> isQuoteChar ?c" "?c \<noteq> CHR ''.''" "isAtext ?c"
    | (other) "?c \<noteq> CHR ''@''" "\<not> ?dd" "\<not> isInvalidLocalChar ?c" "\<not> isQuoteChar ?c" "?c \<noteq> CHR ''.''" "\<not> isAtext ?c"
    by blast
  then show ?thesis
  proof cases
    case at
    have "leftScanLoop t atPos endp effMin start = (start, False, atPos)"
      by (subst eq) (use at assms in simp)
    then show ?thesis using at by simp
  next
    case dd
    have "leftScanLoop t atPos endp effMin start = (start, True, start - 1)"
      by (subst eq) (use dd assms in simp)
    then show ?thesis using dd by simp
  next
    case bad
    have "leftScanLoop t atPos endp effMin start = (start, True, start)"
      by (subst eq) (use bad assms in auto)
    then show ?thesis using bad by simp
  next
    case quote
    then have ax: "isAtext ?c" using cc by simp
    have nd: "\<not> (?c = CHR ''.'' \<and> effMin + 1 < start \<and> t ! (start - 2) = CHR ''.'')"
      using quote(2) by auto
    consider (dbl) "start > effMin + 1 \<and> start \<ge> 2 \<and> t ! (start - 2) = ?c"
      | (m2) "\<not> (start > effMin + 1 \<and> start \<ge> 2 \<and> t ! (start - 2) = ?c)"
             "endp < length t \<and> t ! endp = ?c" "endp + 1 < length t \<and> t ! (endp + 1) = ?c"
      | (m1) "\<not> (start > effMin + 1 \<and> start \<ge> 2 \<and> t ! (start - 2) = ?c)"
             "endp < length t \<and> t ! endp = ?c" "\<not> (endp + 1 < length t \<and> t ! (endp + 1) = ?c)"
      | (ctx) "\<not> (start > effMin + 1 \<and> start \<ge> 2 \<and> t ! (start - 2) = ?c)"
             "\<not> (endp < length t \<and> t ! endp = ?c)" "start > effMin + 1 \<and> start \<ge> 2"
      | (first) "\<not> (start > effMin + 1 \<and> start \<ge> 2 \<and> t ! (start - 2) = ?c)"
             "\<not> (endp < length t \<and> t ! endp = ?c)" "\<not> (start > effMin + 1 \<and> start \<ge> 2)"
             "start = effMin + 1"
      | (rest) "\<not> (start > effMin + 1 \<and> start \<ge> 2 \<and> t ! (start - 2) = ?c)"
             "\<not> (endp < length t \<and> t ! endp = ?c)" "\<not> (start > effMin + 1 \<and> start \<ge> 2)"
             "start \<noteq> effMin + 1"
      by blast
    then show ?thesis
    proof cases
      case dbl
      have "leftScanLoop t atPos endp effMin start = leftScanLoop t atPos endp effMin (start - 1)"
        by (subst eq) (use quote dbl assms in auto)
      then show ?thesis using ax quote(1) nd by simp
    next
      case m2
      have "leftScanLoop t atPos endp effMin start = leftScanLoop t atPos endp effMin (start - 1)"
        by (subst eq) (use quote m2 assms in auto)
      then show ?thesis using ax quote(1) nd by simp
    next
      case m1
      have "leftScanLoop t atPos endp effMin start = (start, False, atPos)"
        by (subst eq) (use quote m1 assms in auto)
      then show ?thesis using quote(4) m1 by simp
    next
      case ctx
      have "leftScanLoop t atPos endp effMin start = leftScanLoop t atPos endp effMin (start - 1)"
        by (subst eq) (use quote ctx assms in auto)
      then show ?thesis using ax quote(1) nd by simp
    next
      case first
      have "leftScanLoop t atPos endp effMin start = (start - 1, False, atPos)"
        by (subst eq) (use quote first assms in auto)
      then show ?thesis using ax quote(4) first by simp
    next
      case rest
      then have False using assms(1) by auto
      then show ?thesis ..
    qed
  next
    case dot
    have "leftScanLoop t atPos endp effMin start = leftScanLoop t atPos endp effMin (start - 1)"
      by (subst eq) (use dot assms in auto)
    then show ?thesis using dot isAtext_dot by auto
  next
    case atext
    have "leftScanLoop t atPos endp effMin start = leftScanLoop t atPos endp effMin (start - 1)"
      by (subst eq) (use atext assms in auto)
    then show ?thesis using atext by simp
  next
    case other
    have "leftScanLoop t atPos endp effMin start = (start, False, atPos)"
      by (subst eq) (use other assms in auto)
    then show ?thesis using other by simp
  qed
qed

lemma leftScan_stop: "\<not> effMin < start \<Longrightarrow> leftScanLoop t atPos endp effMin start = (start, False, atPos)"
  by (subst leftScanLoop.simps) simp

lemma leftScan_inv:
  "leftScanLoop t atPos endp effMin start = (s, hit, ip) \<Longrightarrow> effMin \<le> start \<Longrightarrow>
     s \<le> start \<and> effMin \<le> s \<and> (\<forall>k. s \<le> k \<and> k < start \<longrightarrow> isAtext (t ! k)) \<and>
     (hit \<longrightarrow> (ip = s \<or> (ip + 1 = s \<and> t ! ip = CHR ''.'' \<and> effMin \<le> ip))) \<and>
     (\<not> hit \<longrightarrow> ip = atPos)"
proof (induction start arbitrary: s hit ip rule: less_induct)
  case (less start)
  show ?case
  proof (cases "effMin < start")
    case False
    then show ?thesis using less.prems leftScan_stop [OF False, of t atPos endp] by auto
  next
    case True
    let ?c = "t ! (start - 1)"
    from leftScan_step [OF True, of t atPos endp]
    consider
      (stop) "leftScanLoop t atPos endp effMin start = (start, False, atPos)"
    | (dd) "leftScanLoop t atPos endp effMin start = (start, True, start - 1)"
           "?c = CHR ''.''" "effMin + 1 < start"
    | (bad) "leftScanLoop t atPos endp effMin start = (start, True, start)"
    | (first) "leftScanLoop t atPos endp effMin start = (start - 1, False, atPos)"
           "start = effMin + 1" "isAtext ?c"
    | (rec) "leftScanLoop t atPos endp effMin start = leftScanLoop t atPos endp effMin (start - 1)"
           "isAtext ?c"
      by blast
    then show ?thesis
    proof cases
      case stop
      then show ?thesis using less.prems by auto
    next
      case dd
      then show ?thesis using less.prems by auto
    next
      case bad
      then show ?thesis using less.prems by auto
    next
      case first
      then have e: "s = start - 1" "hit = False" "ip = atPos" using less.prems by auto
      have "\<forall>k. s \<le> k \<and> k < start \<longrightarrow> isAtext (t ! k)"
      proof (intro allI impI)
        fix k assume "s \<le> k \<and> k < start"
        then have "k = start - 1" using e by auto
        then show "isAtext (t ! k)" using first by simp
      qed
      then show ?thesis using e first by auto
    next
      case rec
      then have r: "leftScanLoop t atPos endp effMin (start - 1) = (s, hit, ip)"
        using less.prems by simp
      have lt: "start - 1 < start" using True by simp
      have ge: "effMin \<le> start - 1" using True by simp
      from less.IH [OF lt r ge]
      have IH: "s \<le> start - 1 \<and> effMin \<le> s \<and> (\<forall>k. s \<le> k \<and> k < start - 1 \<longrightarrow> isAtext (t ! k)) \<and>
        (hit \<longrightarrow> (ip = s \<or> (ip + 1 = s \<and> t ! ip = CHR ''.'' \<and> effMin \<le> ip))) \<and>
        (\<not> hit \<longrightarrow> ip = atPos)" .
      have "\<forall>k. s \<le> k \<and> k < start \<longrightarrow> isAtext (t ! k)"
      proof (intro allI impI)
        fix k assume k: "s \<le> k \<and> k < start"
        show "isAtext (t ! k)"
        proof (cases "k = start - 1")
          case True then show ?thesis using rec by simp
        next
          case False then have "k < start - 1" using k by auto
          then show ?thesis using IH k by simp
        qed
      qed
      then show ?thesis using IH by auto
    qed
  qed
qed


lemma findFirstAtext_None_range:
  assumes "findFirstAtext t p limit = None" "p \<le> k" "k < limit" "k < length t"
  shows "\<not> isAtext (t ! k)"
  using findFirstAtextLoop_None [of t "min limit (length t)" p] assms
  by (simp add: findFirstAtext_def)

lemma findFirstAlnum_Some:
  "findFirstAlnum t p limit = Some r \<Longrightarrow> p \<le> r \<and> r < limit \<and> r < length t \<and> isAlphaNum (t ! r)"
  using findFirstAlnumLoop_Some [of t "min limit (length t)" p r]
  by (simp add: findFirstAlnum_def)

lemma findFirstAtext_Some:
  "findFirstAtext t p limit = Some r \<Longrightarrow> p \<le> r \<and> r < limit \<and> r < length t \<and> isAtext (t ! r)"
  using findFirstAtextLoop_Some [of t "min limit (length t)" p r]
  by (simp add: findFirstAtext_def)

lemma finishBoundaries_skip:
  "atPos < length t \<Longrightarrow> \<not> validBoundaries (finishBoundaries t atPos endp effMin start rec) \<Longrightarrow>
   skipTo (finishBoundaries t atPos endp effMin start rec) = 0 \<or>
   skipTo (finishBoundaries t atPos endp effMin start rec) = atPos + 1"
  by (auto simp: finishBoundaries_def Let_def split: if_splits)

definition scanEnd :: "string \<Rightarrow> nat \<Rightarrow> nat" where
  "scanEnd t atPos =
     (let end1 = domainScanLoop t (atPos + 1);
          end2 = trimRightLoop t atPos (CHR ''.'') end1
      in if end2 < length t \<and> t ! end2 = CHR ''@''
         then trimRightLoop t atPos (CHR ''-'') end2 else end2)"

definition effectiveMinOf :: "nat \<Rightarrow> nat \<Rightarrow> nat" where
  "effectiveMinOf atPos m =
     (if atPos > MAX_LEFT_SCAN then max m (atPos - MAX_LEFT_SCAN) else m)"

lemma findEmailBoundaries_cases:
  assumes "atPos < length t" "\<not> (atPos + 1 < length t \<and> t ! (atPos + 1) = CHR ''['')"
    and "leftScanLoop t atPos (scanEnd t atPos) (effectiveMinOf atPos m) atPos = (s, hit, ip)"
  shows "findEmailBoundaries t atPos m =
     (if hit then
        (case findFirstAlnum t (max ip (effectiveMinOf atPos m)) atPos of
           Some recoveryPos \<Rightarrow>
             finishBoundaries t atPos (scanEnd t atPos) (effectiveMinOf atPos m) recoveryPos True
         | None \<Rightarrow>
             (case findFirstAtext t (max ip (effectiveMinOf atPos m)) atPos of
                Some recoveryPos \<Rightarrow>
                  finishBoundaries t atPos (scanEnd t atPos) (effectiveMinOf atPos m) recoveryPos True
              | None \<Rightarrow>
                  \<lparr>b_start = atPos, b_end = atPos, validBoundaries = False,
                   skipTo = min (ip + 1) (length t)\<rparr>))
      else finishBoundaries t atPos (scanEnd t atPos) (effectiveMinOf atPos m) s False)"
  using assms
  unfolding findEmailBoundaries_def scanEnd_def effectiveMinOf_def Let_def
  by auto

lemma findEmailBoundaries_bracket:
  "atPos + 1 < length t \<Longrightarrow> t ! (atPos + 1) = CHR ''['' \<Longrightarrow>
   findEmailBoundaries t atPos m =
     \<lparr>b_start = atPos, b_end = atPos, validBoundaries = False, skipTo = atPos + 1\<rparr>"
  by (simp add: findEmailBoundaries_def Let_def)

text \<open>Whenever the boundary search rejects an anchor and names a position to resume at,
  that position is the byte after the anchor.\<close>

lemma findEmailBoundaries_skipTo:
  assumes "atPos < length t"
    and "\<not> validBoundaries (findEmailBoundaries t atPos m)"
  shows "skipTo (findEmailBoundaries t atPos m) = 0 \<or>
         skipTo (findEmailBoundaries t atPos m) = atPos + 1"
proof (cases "atPos + 1 < length t \<and> t ! (atPos + 1) = CHR ''[''")
  case True
  then show ?thesis by (simp add: findEmailBoundaries_bracket)
next
  case nb: False
  define endp where "endp = scanEnd t atPos"
  define effMin where "effMin = effectiveMinOf atPos m"
  obtain s hit ip where ls: "leftScanLoop t atPos endp effMin atPos = (s, hit, ip)"
    by (cases "leftScanLoop t atPos endp effMin atPos") auto
  note feb = findEmailBoundaries_cases [OF assms(1) nb ls [unfolded endp_def effMin_def],
      folded endp_def effMin_def]
  show ?thesis
  proof (cases hit)
    case False
    then show ?thesis using feb finishBoundaries_skip [OF assms(1)] assms(2) by simp
  next
    case hit: True
    show ?thesis
    proof (cases "findFirstAlnum t (max ip effMin) atPos")
      case (Some r)
      then show ?thesis using feb hit finishBoundaries_skip [OF assms(1)] assms(2) by simp
    next
      case None
      show ?thesis
      proof (cases "findFirstAtext t (max ip effMin) atPos")
        case (Some r)
        then show ?thesis using feb hit None finishBoundaries_skip [OF assms(1)] assms(2) by simp
      next
        case na: None
        have res: "skipTo (findEmailBoundaries t atPos m) = min (ip + 1) (length t)"
          using feb hit None na by simp
        have "ip = atPos"
        proof (cases "effMin \<le> atPos")
          case False
          then have "leftScanLoop t atPos endp effMin atPos = (atPos, False, atPos)"
            by (simp add: leftScan_stop)
          then show ?thesis using ls hit by simp
        next
          case True
          from leftScan_inv [OF ls True] hit
          have I: "s \<le> atPos" "effMin \<le> s" "\<forall>k. s \<le> k \<and> k < atPos \<longrightarrow> isAtext (t ! k)"
            "ip = s \<or> (ip + 1 = s \<and> t ! ip = CHR ''.'' \<and> effMin \<le> ip)"
            by simp_all
          have noat: "\<And>k. max ip effMin \<le> k \<Longrightarrow> k < atPos \<Longrightarrow> \<not> isAtext (t ! k)"
            using findFirstAtext_None_range [OF na] assms(1) by simp
          from I(4) show ?thesis
          proof
            assume e: "ip = s"
            show ?thesis
            proof (rule ccontr)
              assume "ip \<noteq> atPos"
              then have lt: "s < atPos" using e I(1) by simp
              have "max ip effMin = s" using e I(2) by simp
              then have "\<not> isAtext (t ! s)" using noat [of s] lt by simp
              moreover have "isAtext (t ! s)" using I(3) lt by simp
              ultimately show False by simp
            qed
          next
            assume d: "ip + 1 = s \<and> t ! ip = CHR ''.'' \<and> effMin \<le> ip"
            then have "max ip effMin = ip" "ip < atPos" using I(1) by auto
            then have "\<not> isAtext (t ! ip)" using noat [of ip] by simp
            then have False using d isAtext_dot by simp
            then show ?thesis ..
          qed
        qed
        then show ?thesis using res assms(1) by simp
      qed
    qed
  qed
qed

lemma containsBody_progress:
  assumes "containsBody t st = Continue st'"
  shows "pos st < pos st'"
proof -
  from assms obtain a where m: "memchr t (CHR ''@'') (pos st) = Some a"
    by (auto simp: containsBody_def Let_def split: option.splits)
  from memchr_Some [OF m] have a: "pos st \<le> a" "a < length t" by simp_all
  let ?b = "findEmailBoundaries t a (minScannedIndex st)"
  have sk: "\<not> validBoundaries ?b \<Longrightarrow> skipTo ?b > 0 \<Longrightarrow> skipTo ?b = a + 1"
    using findEmailBoundaries_skipTo [OF a(2), of "minScannedIndex st"] by auto
  from assms m have "pos st' = a + 1 \<or> (\<not> validBoundaries ?b \<and> skipTo ?b > 0 \<and> pos st' = skipTo ?b)"
    by (auto simp: containsBody_def Let_def split: if_splits)
  then show ?thesis using sk a by auto
qed

termination containsLoop
proof (relation "measure (\<lambda>(t, st). length t - pos st)")
  show "wf (measure (\<lambda>(t, st). length t - pos st))" by simp
next
  fix t :: string and st st' :: ScanState
  assume "pos st < length t" and "containsBody t st = Continue st'"
  then show "((t, st'), (t, st)) \<in> measure (\<lambda>(t, st). length t - pos st)"
    using containsBody_progress [of t st st'] by simp
qed


lemma extractBody_iterations:
  "extractBody t st = Continue st' \<Longrightarrow> iterations st' = iterations st"
  by (auto simp: extractBody_def Let_def split: option.splits if_splits)

termination extractLoop
proof (relation "measure (\<lambda>(t, st). MAX_SCAN_ITERATIONS - iterations st)")
  show "wf (measure (\<lambda>(t, st). MAX_SCAN_ITERATIONS - iterations st))" by simp
next
  fix t :: string and st st' :: ExtractState
  assume "pos st < length t \<and> iterations st < MAX_SCAN_ITERATIONS"
    and "extractBody t (st\<lparr>iterations := iterations st + 1\<rparr>) = Continue st'"
  then show "((t, st'), (t, st)) \<in> measure (\<lambda>(t, st). MAX_SCAN_ITERATIONS - iterations st)"
    using extractBody_iterations [of t "st\<lparr>iterations := iterations st + 1\<rparr>" st'] by auto
qed

declare containsLoop.simps [simp del] extractLoop.simps [simp del]

section \<open>Scan-mode local parts\<close>

definition scanLocalSpec :: "string \<Rightarrow> bool" where
  "scanLocalSpec l =
     (1 \<le> length l \<and> length l \<le> 64 \<and> hd l \<noteq> CHR 0x22 \<and> hd l \<noteq> CHR ''.'' \<and>
      last l \<noteq> CHR ''.'' \<and> noConsecutiveDots l \<and> (\<forall>c \<in> set l. c = CHR ''.'' \<or> isAtext c))"

declare scanModeLoop.simps [simp del]

lemma scanModeLoop_iff:
  "i \<le> endp \<Longrightarrow> endp \<le> length t \<Longrightarrow>
   scanModeLoop t endp i prevDot \<longleftrightarrow>
     ((prevDot \<longrightarrow> \<not> (i < endp \<and> t ! i = CHR ''.'')) \<and>
      (\<forall>k. i \<le> k \<and> Suc k < endp \<longrightarrow> \<not> (t ! k = CHR ''.'' \<and> t ! Suc k = CHR ''.'')) \<and>
      (\<forall>c \<in> set (slice t i endp). c = CHR ''.'' \<or> isAtext c))"
proof (induction "endp - i" arbitrary: i prevDot)
  case 0
  then show ?case by (subst scanModeLoop.simps) auto
next
  case (Suc n)
  then have lt: "i < endp" and n: "n = endp - (i + 1)" by simp_all
  have il: "i < length t" using lt Suc.prems by simp
  note eq = scanModeLoop.simps [of t endp i prevDot]
  have sl: "slice t i endp = t ! i # slice t (Suc i) endp" using lt Suc.prems by (simp add: slice_Cons)
  have IH: "\<And>pd. scanModeLoop t endp (i + 1) pd \<longleftrightarrow>
     ((pd \<longrightarrow> \<not> (i + 1 < endp \<and> t ! (i + 1) = CHR ''.'')) \<and>
      (\<forall>k. i + 1 \<le> k \<and> Suc k < endp \<longrightarrow> \<not> (t ! k = CHR ''.'' \<and> t ! Suc k = CHR ''.'')) \<and>
      (\<forall>c \<in> set (slice t (i + 1) endp). c = CHR ''.'' \<or> isAtext c))"
    by (rule Suc.hyps(1) [OF n]) (use lt Suc.prems in simp_all)
  have split: "\<And>P. (\<forall>k. i \<le> k \<and> Suc k < endp \<longrightarrow> P k) \<longleftrightarrow>
                 ((Suc i < endp \<longrightarrow> P i) \<and> (\<forall>k. i + 1 \<le> k \<and> Suc k < endp \<longrightarrow> P k))"
  proof -
    fix P
    have e: "\<And>k. (i \<le> k) = (k = i \<or> i + 1 \<le> k)" by arith
    show "(\<forall>k. i \<le> k \<and> Suc k < endp \<longrightarrow> P k) \<longleftrightarrow>
                 ((Suc i < endp \<longrightarrow> P i) \<and> (\<forall>k. i + 1 \<le> k \<and> Suc k < endp \<longrightarrow> P k))"
      unfolding e by blast
  qed
  show ?case
  proof (cases "t ! i = CHR ''.''")
    case dot: True
    show ?thesis
    proof (cases prevDot)
      case True
      have "scanModeLoop t endp i prevDot = False"
        by (subst eq) (use True dot lt il in simp)
      then show ?thesis using True dot lt by simp
    next
      case False
      have "scanModeLoop t endp i prevDot = scanModeLoop t endp (i + 1) True"
        by (subst eq) (use False dot lt il in simp)
      then show ?thesis
        unfolding IH split [of "\<lambda>k. \<not> (t ! k = CHR ''.'' \<and> t ! Suc k = CHR ''.'')"] sl
        using False dot by auto
    qed
  next
    case nodot: False
    show ?thesis
    proof (cases "isAtext (t ! i)")
      case True
      have "scanModeLoop t endp i prevDot = scanModeLoop t endp (i + 1) False"
        by (subst eq) (use nodot True lt il in simp)
      then show ?thesis
        unfolding IH split [of "\<lambda>k. \<not> (t ! k = CHR ''.'' \<and> t ! Suc k = CHR ''.'')"] sl
        using nodot True by auto
    next
      case False
      have "scanModeLoop t endp i prevDot = False"
        by (subst eq) (use nodot False lt il in simp)
      then show ?thesis unfolding sl using nodot False by simp
    qed
  qed
qed

lemma validateScanMode_iff:
  "validateScanMode t start endp \<longleftrightarrow> (endp \<le> length t \<and> scanLocalSpec (slice t start endp))"
proof (cases "start \<ge> endp \<or> endp > length t")
  case True
  have c: "(start \<ge> endp \<or> endp > length t \<or> endp - start > MAX_LOCAL_PART) = True"
    using True by blast
  have a: "\<not> validateScanMode t start endp"
    unfolding validateScanMode_def c by simp
  have b: "endp \<le> length t \<Longrightarrow> \<not> scanLocalSpec (slice t start endp)"
  proof -
    assume "endp \<le> length t"
    then have "slice t start endp = []" using True by simp
    then show ?thesis by (simp add: scanLocalSpec_def)
  qed
  show ?thesis using a b by blast
next
  case False
  then have h: "start < endp" "endp \<le> length t" by simp_all
  let ?w = "slice t start endp"
  have len: "length ?w = endp - start" using h by simp
  have hdw: "hd ?w = t ! start" using h by (simp add: hd_slice)
  have lastw: "last ?w = t ! (endp - 1)" using h by (simp add: last_slice)
  have loop: "scanModeLoop t endp start False \<longleftrightarrow>
      (noConsecutiveDots ?w \<and> (\<forall>c \<in> set ?w. c = CHR ''.'' \<or> isAtext c))"
    using scanModeLoop_iff [of start endp t False] noConsecutiveDots_slice [of start endp t] h
    by simp
  have pre: "validateScanMode t start endp \<longleftrightarrow>
      (endp - start \<le> 64 \<and> t ! start \<noteq> CHR 0x22 \<and> t ! start \<noteq> CHR ''.'' \<and>
       t ! (endp - 1) \<noteq> CHR ''.'' \<and> scanModeLoop t endp start False)"
    using h by (auto simp: validateScanMode_def MAX_LOCAL_PART_def)
  have post: "scanLocalSpec ?w \<longleftrightarrow>
      (endp - start \<le> 64 \<and> t ! start \<noteq> CHR 0x22 \<and> t ! start \<noteq> CHR ''.'' \<and>
       t ! (endp - 1) \<noteq> CHR ''.'' \<and> noConsecutiveDots ?w \<and>
       (\<forall>c \<in> set ?w. c = CHR ''.'' \<or> isAtext c))"
  proof -
    have one: "1 \<le> endp - start" using h by simp
    show ?thesis unfolding scanLocalSpec_def len hdw lastw using one by simp
  qed
  show ?thesis unfolding pre post loop using h by simp
qed

lemma validateLocalPart_SCAN:
  "validateLocalPart t start endp SCAN \<longleftrightarrow> (endp \<le> length t \<and> scanLocalSpec (slice t start endp))"
proof (cases "start \<ge> endp \<or> endp > length t")
  case True
  have c: "(start \<ge> endp \<or> endp > length t) = True"
    using True by blast
  have a: "\<not> validateLocalPart t start endp SCAN"
    unfolding validateLocalPart_def c by simp
  have b: "endp \<le> length t \<Longrightarrow> \<not> scanLocalSpec (slice t start endp)"
  proof -
    assume "endp \<le> length t"
    then have "slice t start endp = []" using True by simp
    then show ?thesis by (simp add: scanLocalSpec_def)
  qed
  show ?thesis using a b by blast
next
  case False
  then show ?thesis by (simp add: validateLocalPart_def validateScanMode_iff)
qed

lemma slice_slice:
  assumes "a + d \<le> b" "b \<le> length t"
  shows "slice (slice t a b) c d = slice t (a + c) (a + d)"
proof -
  have "drop c (take (b - a) (drop a t)) = take (b - a - c) (drop (c + a) t)"
    by (simp add: drop_take)
  moreover have "min (d - c) (b - a - c) = d - c" using assms by arith
  ultimately have "take (d - c) (drop c (take (b - a) (drop a t))) = take (d - c) (drop (c + a) t)"
    by simp
  moreover have "a + d - (a + c) = d - c" by simp
  moreover have "c + a = a + c" by simp
  ultimately show ?thesis unfolding slice_def substr_def by simp
qed

lemma slice_full: "slice t 0 (length t) = t"
  by (simp add: slice_def substr_def)

lemma nth_slice': "k < b - a \<Longrightarrow> b \<le> length t \<Longrightarrow> slice t a b ! k = t ! (a + k)"
  by (rule nth_slice) auto

section \<open>The loop of extract\<close>

definition acceptedAt :: "string \<Rightarrow> nat \<Rightarrow> nat \<Rightarrow> nat \<Rightarrow> bool" where
  "acceptedAt t s a e =
     (a + 1 < length t \<and> t ! a = CHR ''@'' \<and> t ! (a + 1) \<noteq> CHR ''['' \<and>
      validateLocalPart t s a SCAN \<and> validateDomainPart t (a + 1) e \<and>
      (\<exists>m. validBoundaries (findEmailBoundaries t a m) \<and>
           b_start (findEmailBoundaries t a m) = s \<and> b_end (findEmailBoundaries t a m) = e))"

lemma validateLocalPart_bounds:
  "validateLocalPart t s e m \<Longrightarrow> s < e \<and> e \<le> length t"
  by (auto simp: validateLocalPart_def split: if_splits)

lemma validateDomainPart_bounds:
  "validateDomainPart t s e \<Longrightarrow> s < e \<and> e \<le> length t"
  by (auto simp: validateDomainPart_def split: if_splits)

lemma acceptedAt_bounds: "acceptedAt t s a e \<Longrightarrow> s < a \<and> a + 1 < e \<and> e \<le> length t"
  using validateLocalPart_bounds validateDomainPart_bounds by (auto simp: acceptedAt_def)

lemma extractBody_Break: "extractBody t st = Break r \<Longrightarrow> r = emails st"
  by (auto simp: extractBody_def Let_def split: option.splits if_splits)

lemma validBoundaries_not_bracket:
  "validBoundaries (findEmailBoundaries t a m) \<Longrightarrow> a + 1 < length t \<Longrightarrow> t ! (a + 1) \<noteq> CHR ''[''"
  using findEmailBoundaries_bracket [of a t m] by auto

lemma extractBody_Continue:
  assumes "extractBody t st = Continue st'"
  shows "(emails st' = emails st \<and> seen st' = seen st \<and>
          minScannedIndex st' = minScannedIndex st \<and> lastConsumedEnd st' = lastConsumedEnd st \<and>
          extractedCount st' = extractedCount st) \<or>
         (\<exists>a. memchr t (CHR ''@'') (pos st) = Some a \<and> 1 \<le> a \<and> a < length t - 3 \<and>
            lastConsumedEnd st \<le> a \<and>
            validBoundaries (findEmailBoundaries t a (minScannedIndex st)) \<and>
            validateLocalPart t (b_start (findEmailBoundaries t a (minScannedIndex st))) a SCAN \<and>
            validateDomainPart t (a + 1) (b_end (findEmailBoundaries t a (minScannedIndex st))) \<and>
            emails st' =
              (if slice t (b_start (findEmailBoundaries t a (minScannedIndex st)))
                          (b_end (findEmailBoundaries t a (minScannedIndex st))) \<in> seen st
               then emails st
               else emails st @ [slice t (b_start (findEmailBoundaries t a (minScannedIndex st)))
                          (b_end (findEmailBoundaries t a (minScannedIndex st)))]) \<and>
            seen st' = insert (slice t (b_start (findEmailBoundaries t a (minScannedIndex st)))
                          (b_end (findEmailBoundaries t a (minScannedIndex st)))) (seen st) \<and>
            extractedCount st' =
              (if slice t (b_start (findEmailBoundaries t a (minScannedIndex st)))
                          (b_end (findEmailBoundaries t a (minScannedIndex st))) \<in> seen st
               then extractedCount st else extractedCount st + 1) \<and>
            minScannedIndex st' =
              max (minScannedIndex st) (b_start (findEmailBoundaries t a (minScannedIndex st))) \<and>
            lastConsumedEnd st' =
              max (lastConsumedEnd st) (b_end (findEmailBoundaries t a (minScannedIndex st))) \<and>
            pos st' = b_end (findEmailBoundaries t a (minScannedIndex st)))"
proof -
  from assms obtain a where m: "memchr t (CHR ''@'') (pos st) = Some a"
    and cnt: "\<not> extractedCount st \<ge> MAX_EMAILS_EXTRACT"
    by (auto simp: extractBody_def Let_def split: option.splits if_splits)
  define b where "b = findEmailBoundaries t a (minScannedIndex st)"
  define total where "total = totalCharsScanned st + (a - b_start b) + (b_end b - a)"
  define upd where "upd = st\<lparr>pos := b_end b,
       minScannedIndex := max (minScannedIndex st) (b_start b),
       lastConsumedEnd := max (lastConsumedEnd st) (b_end b),
       totalCharsScanned := total,
       extractedCount := (if slice t (b_start b) (b_end b) \<notin> seen st
                          then extractedCount st + 1 else extractedCount st),
       emails := (if slice t (b_start b) (b_end b) \<notin> seen st
                  then emails st @ [slice t (b_start b) (b_end b)] else emails st),
       seen := insert (slice t (b_start b) (b_end b)) (seen st)\<rparr>"
  have body: "extractBody t st =
     (if a < 1 \<or> a \<ge> length t - 3 then Continue (st\<lparr>pos := a + 1\<rparr>)
      else if a < lastConsumedEnd st then Continue (st\<lparr>pos := a + 1\<rparr>)
      else if total > MAX_TOTAL_CHARS_SCANNED then Break (emails st)
      else if \<not> validBoundaries b then
        (if skipTo b > 0 then Continue (st\<lparr>pos := skipTo b, totalCharsScanned := total\<rparr>)
         else Continue (st\<lparr>pos := a + 1, totalCharsScanned := total\<rparr>))
      else if validateLocalPart t (b_start b) a SCAN \<and> validateDomainPart t (a + 1) (b_end b) then
        (if b_start b \<ge> length t \<or> b_end b > length t \<or> b_start b \<ge> b_end b
         then Continue (st\<lparr>pos := a + 1, totalCharsScanned := total\<rparr>)
         else Continue upd)
      else Continue (st\<lparr>pos := a + 1, totalCharsScanned := total\<rparr>))"
  proof -
    have nb: "(MAX_EMAILS_EXTRACT \<le> extractedCount st) = False" using cnt by simp
    show ?thesis
      unfolding extractBody_def Let_def m nb b_def [symmetric] total_def [symmetric] upd_def
        slice_def option.case if_False if_cancel not_not
      by (rule refl)
  qed
  consider (plain) "st' = st\<lparr>pos := a + 1\<rparr>"
    | (skipped) p where "st' = st\<lparr>pos := p, totalCharsScanned := total\<rparr>"
    | (matched) "st' = upd" "\<not> (a < 1 \<or> a \<ge> length t - 3)" "\<not> a < lastConsumedEnd st"
        "validBoundaries b" "validateLocalPart t (b_start b) a SCAN"
        "validateDomainPart t (a + 1) (b_end b)"
  proof (cases "a < 1 \<or> a \<ge> length t - 3")
    case True
    then have "extractBody t st = Continue (st\<lparr>pos := a + 1\<rparr>)" unfolding body by simp
    then show ?thesis using assms plain by simp
  next
    case c1: False
    show ?thesis
    proof (cases "a < lastConsumedEnd st")
      case True
      then have "extractBody t st = Continue (st\<lparr>pos := a + 1\<rparr>)" unfolding body using c1 by simp
      then show ?thesis using assms plain by simp
    next
      case c2: False
      show ?thesis
      proof (cases "total > MAX_TOTAL_CHARS_SCANNED")
        case True
        then have "extractBody t st = Break (emails st)" unfolding body using c1 c2 by simp
        then show ?thesis using assms by simp
      next
        case c3: False
        show ?thesis
        proof (cases "validBoundaries b")
          case False
          then have "extractBody t st =
            (if skipTo b > 0 then Continue (st\<lparr>pos := skipTo b, totalCharsScanned := total\<rparr>)
             else Continue (st\<lparr>pos := a + 1, totalCharsScanned := total\<rparr>))"
            unfolding body using c1 c2 c3 by simp
          then have "st' = st\<lparr>pos := skipTo b, totalCharsScanned := total\<rparr> \<or>
                     st' = st\<lparr>pos := a + 1, totalCharsScanned := total\<rparr>"
            using assms by (simp split: if_splits)
          then show ?thesis using skipped by blast
        next
          case c4: True
          show ?thesis
          proof (cases "validateLocalPart t (b_start b) a SCAN \<and> validateDomainPart t (a + 1) (b_end b)")
            case False
            then have "extractBody t st = Continue (st\<lparr>pos := a + 1, totalCharsScanned := total\<rparr>)"
              unfolding body using c1 c2 c3 c4 by auto
            then show ?thesis using assms skipped by simp
          next
            case c5: True
            show ?thesis
            proof (cases "b_start b \<ge> length t \<or> b_end b > length t \<or> b_start b \<ge> b_end b")
              case True
              then have "extractBody t st = Continue (st\<lparr>pos := a + 1, totalCharsScanned := total\<rparr>)"
                unfolding body using c1 c2 c3 c4 c5 by simp
              then show ?thesis using assms skipped by simp
            next
              case False
              then have "extractBody t st = Continue upd"
                unfolding body using c1 c2 c3 c4 c5 by simp
              then have "st' = upd" using assms by simp
              then show ?thesis using matched c1 c2 c4 c5 by blast
            qed
          qed
        qed
      qed
    qed
  qed
  then show ?thesis
  proof cases
    case plain
    then show ?thesis by simp
  next
    case skipped
    then show ?thesis by simp
  next
    case matched
    have "memchr t (CHR ''@'') (pos st) = Some a \<and> 1 \<le> a \<and> a < length t - 3 \<and>
            lastConsumedEnd st \<le> a \<and>
            validBoundaries b \<and>
            validateLocalPart t (b_start b) a SCAN \<and>
            validateDomainPart t (a + 1) (b_end b) \<and>
            emails st' =
              (if slice t (b_start b) (b_end b) \<in> seen st
               then emails st
               else emails st @ [slice t (b_start b) (b_end b)]) \<and>
            seen st' = insert (slice t (b_start b) (b_end b)) (seen st) \<and>
            extractedCount st' =
              (if slice t (b_start b) (b_end b) \<in> seen st
               then extractedCount st else extractedCount st + 1) \<and>
            minScannedIndex st' = max (minScannedIndex st) (b_start b) \<and>
            lastConsumedEnd st' = max (lastConsumedEnd st) (b_end b) \<and>
            pos st' = b_end b"
      using matched m by (simp add: upd_def)
    then show ?thesis unfolding b_def by blast
  qed
qed

definition spanOrder :: "nat \<times> nat \<times> nat \<Rightarrow> nat \<times> nat \<times> nat \<Rightarrow> bool" where
  "spanOrder x y = (case x of (s, a, e) \<Rightarrow> case y of (s', a', e') \<Rightarrow> a < a' \<and> e \<le> a' \<and> s \<le> s')"

definition spanText :: "string \<Rightarrow> nat \<times> nat \<times> nat \<Rightarrow> string" where
  "spanText t x = (case x of (s, a, e) \<Rightarrow> slice t s e)"

definition spanAccepted :: "string \<Rightarrow> nat \<times> nat \<times> nat \<Rightarrow> bool" where
  "spanAccepted t x = (case x of (s, a, e) \<Rightarrow> acceptedAt t s a e)"

definition extractInv :: "string \<Rightarrow> ExtractState \<Rightarrow> (nat \<times> nat \<times> nat) list \<Rightarrow> bool" where
  "extractInv t st spans =
     (emails st = map (spanText t) spans \<and> distinct (emails st) \<and> seen st = set (emails st) \<and>
      sorted_wrt spanOrder spans \<and>
      (\<forall>x \<in> set spans. spanAccepted t x \<and> snd (snd x) \<le> lastConsumedEnd st \<and>
                          fst x \<le> minScannedIndex st) \<and>
      minScannedIndex st \<le> lastConsumedEnd st)"

lemma leadingDotLoop_ge: "start \<le> leadingDotLoop t atPos start"
proof (induction "atPos - start" arbitrary: start)
  case 0
  then show ?case by (subst leadingDotLoop.simps) simp
next
  case (Suc n)
  have n: "n = atPos - (start + 1)" using Suc.hyps(2) by simp
  have "start + 1 \<le> leadingDotLoop t atPos (start + 1)" by (rule Suc.hyps(1) [OF n])
  then show ?case by (subst leadingDotLoop.simps) simp
qed

lemma finishBoundaries_start:
  assumes "validBoundaries (finishBoundaries t atPos endp effMin start rec)"
  shows "start \<le> b_start (finishBoundaries t atPos endp effMin start rec) \<and>
         b_start (finishBoundaries t atPos endp effMin start rec) < atPos \<and>
         b_end (finishBoundaries t atPos endp effMin start rec) = endp"
proof -
  define start1 where "start1 = leadingDotLoop t atPos start"
  define start2 where "start2 =
            (if start1 < atPos \<and> start1 > effMin \<and> start1 > 0 \<and>
                isInvalidLocalChar (t ! (start1 - 1))
             then (case findFirstAlnum t start1 atPos of Some firstAlnum \<Rightarrow> firstAlnum
                   | None \<Rightarrow> start1)
             else start1)"
  have fb: "finishBoundaries t atPos endp effMin start rec =
     (if start2 \<ge> atPos then
          \<lparr>b_start = atPos, b_end = atPos, validBoundaries = False, skipTo = min (atPos + 1) (length t)\<rparr>
        else
          \<lparr>b_start = start2, b_end = endp,
           validBoundaries =
             rightBoundaryLegal t endp (leftBoundaryLegal t effMin start2 rec),
           skipTo = 0\<rparr>)"
    unfolding finishBoundaries_def Let_def start1_def [symmetric] start2_def [symmetric]
    by (rule refl)
  have s1: "start \<le> start1" unfolding start1_def by (rule leadingDotLoop_ge)
  have s2: "start1 \<le> start2"
    unfolding start2_def using findFirstAlnum_Some [of t start1 atPos]
    by (auto split: option.splits)
  from assms have lt: "start2 < atPos" unfolding fb by (auto split: if_splits)
  then show ?thesis unfolding fb using s1 s2 by simp
qed

lemma effectiveMinOf_ge: "m \<le> effectiveMinOf a m"
  by (simp add: effectiveMinOf_def)

lemma findEmailBoundaries_start_ge:
  assumes "atPos < length t" "validBoundaries (findEmailBoundaries t atPos m)"
  shows "m \<le> b_start (findEmailBoundaries t atPos m) \<and>
         b_start (findEmailBoundaries t atPos m) < atPos"
proof -
  have nb: "\<not> (atPos + 1 < length t \<and> t ! (atPos + 1) = CHR ''['')"
    using assms(2) findEmailBoundaries_bracket [of atPos t m] by auto
  define endp where "endp = scanEnd t atPos"
  define effMin where "effMin = effectiveMinOf atPos m"
  obtain s hit ip where ls: "leftScanLoop t atPos endp effMin atPos = (s, hit, ip)"
    by (cases "leftScanLoop t atPos endp effMin atPos") auto
  note feb = findEmailBoundaries_cases [OF assms(1) nb ls [unfolded endp_def effMin_def],
      folded endp_def effMin_def]
  have mle: "m \<le> effMin" unfolding effMin_def by (rule effectiveMinOf_ge)
  have "\<exists>start rec. effMin \<le> start \<and>
          findEmailBoundaries t atPos m = finishBoundaries t atPos endp effMin start rec"
  proof (cases hit)
    case False
    then have e: "findEmailBoundaries t atPos m = finishBoundaries t atPos endp effMin s False"
      using feb by simp
    have "effMin \<le> s"
    proof (cases "effMin \<le> atPos")
      case True
      from leftScan_inv [OF ls True] show ?thesis by simp
    next
      case False
      then have "leftScanLoop t atPos endp effMin atPos = (atPos, False, atPos)"
        by (simp add: leftScan_stop)
      then have "s = atPos" using ls by simp
      then have "b_start (finishBoundaries t atPos endp effMin s False) < s"
        using finishBoundaries_start [of t atPos endp effMin s False] assms(2) e by simp
      moreover have "s \<le> b_start (finishBoundaries t atPos endp effMin s False)"
        using finishBoundaries_start [of t atPos endp effMin s False] assms(2) e by simp
      ultimately show ?thesis by simp
    qed
    then show ?thesis using e by blast
  next
    case hit: True
    show ?thesis
    proof (cases "findFirstAlnum t (max ip effMin) atPos")
      case (Some r)
      then have "findEmailBoundaries t atPos m = finishBoundaries t atPos endp effMin r True"
        using feb hit by simp
      moreover have "effMin \<le> r" using findFirstAlnum_Some [OF Some] by simp
      ultimately show ?thesis by blast
    next
      case None
      show ?thesis
      proof (cases "findFirstAtext t (max ip effMin) atPos")
        case (Some r)
        then have "findEmailBoundaries t atPos m = finishBoundaries t atPos endp effMin r True"
          using feb hit None by simp
        moreover have "effMin \<le> r" using findFirstAtext_Some [OF Some] by simp
        ultimately show ?thesis by blast
      next
        case na: None
        then have "\<not> validBoundaries (findEmailBoundaries t atPos m)"
          using feb hit None by simp
        then show ?thesis using assms(2) by simp
      qed
    qed
  qed
  then obtain start rec where st: "effMin \<le> start"
    and e: "findEmailBoundaries t atPos m = finishBoundaries t atPos endp effMin start rec"
    by blast
  from finishBoundaries_start [of t atPos endp effMin start rec] assms(2) e
  have "start \<le> b_start (findEmailBoundaries t atPos m)"
       "b_start (findEmailBoundaries t atPos m) < atPos" by simp_all
  then show ?thesis using st mle by simp
qed

lemma sorted_wrt_snoc:
  "sorted_wrt P (xs @ [x]) \<longleftrightarrow> sorted_wrt P xs \<and> (\<forall>y \<in> set xs. P y x)"
  by (simp add: sorted_wrt_append)

lemma extractInv_step:
  assumes inv: "extractInv t st spans" and step: "extractBody t st = Continue st'"
  shows "\<exists>spans'. extractInv t st' spans'"
proof -
  from extractBody_Continue [OF step]
  consider (skip) "emails st' = emails st" "seen st' = seen st"
          "minScannedIndex st' = minScannedIndex st" "lastConsumedEnd st' = lastConsumedEnd st"
    | (match) a b where "b = findEmailBoundaries t a (minScannedIndex st)"
          "memchr t (CHR ''@'') (pos st) = Some a" "1 \<le> a" "a < length t - 3"
          "lastConsumedEnd st \<le> a" "validBoundaries b"
          "validateLocalPart t (b_start b) a SCAN" "validateDomainPart t (a + 1) (b_end b)"
          "emails st' = (if slice t (b_start b) (b_end b) \<in> seen st then emails st
                         else emails st @ [slice t (b_start b) (b_end b)])"
          "seen st' = insert (slice t (b_start b) (b_end b)) (seen st)"
          "minScannedIndex st' = max (minScannedIndex st) (b_start b)"
          "lastConsumedEnd st' = max (lastConsumedEnd st) (b_end b)"
    by blast
  then show ?thesis
  proof cases
    case skip
    then have "extractInv t st' spans" using inv by (auto simp: extractInv_def)
    then show ?thesis ..
  next
    case match
    from memchr_Some [OF match(2)] have at: "a < length t" "t ! a = CHR ''@''" by simp_all
    have a1: "a + 1 < length t" using match(4) by simp
    have nbr: "t ! (a + 1) \<noteq> CHR ''[''"
      using validBoundaries_not_bracket [of t a "minScannedIndex st"] match(1,6) a1 by simp
    have acc: "acceptedAt t (b_start b) a (b_end b)"
      unfolding acceptedAt_def using a1 at nbr match(1,6,7,8) by blast
    from acceptedAt_bounds [OF acc] have bd: "b_start b < a" "a + 1 < b_end b" "b_end b \<le> length t"
      by simp_all
    have sge: "minScannedIndex st \<le> b_start b"
      using findEmailBoundaries_start_ge [OF at(1), of "minScannedIndex st"] match(1,6) by simp
    let ?m = "slice t (b_start b) (b_end b)"
    from inv have I: "emails st = map (spanText t) spans" "distinct (emails st)"
      "seen st = set (emails st)" "sorted_wrt spanOrder spans"
      "\<forall>x \<in> set spans. spanAccepted t x \<and> snd (snd x) \<le> lastConsumedEnd st \<and>
                          fst x \<le> minScannedIndex st"
      "minScannedIndex st \<le> lastConsumedEnd st"
      by (auto simp: extractInv_def)
    have mono: "\<forall>x \<in> set spans. spanAccepted t x \<and> snd (snd x) \<le> lastConsumedEnd st' \<and>
                          fst x \<le> minScannedIndex st'"
      using I(5) match(11,12) by auto
    have ml: "minScannedIndex st' \<le> lastConsumedEnd st'"
      using I(6) match(11,12) bd by auto
    show ?thesis
    proof (cases "?m \<in> seen st")
      case True
      then have "emails st' = emails st" "seen st' = seen st" using match(9,10) by auto
      then have "extractInv t st' spans"
        unfolding extractInv_def using I mono ml by simp
      then show ?thesis ..
    next
      case False
      let ?x = "(b_start b, a, b_end b)"
      have em: "emails st' = map (spanText t) (spans @ [?x])"
        using False match(9) I(1) by (simp add: spanText_def)
      have di: "distinct (emails st')" using False match(9) I(2,3) by simp
      have se: "seen st' = set (emails st')" using False match(9,10) I(3) by simp
      have ord: "\<forall>y \<in> set spans. spanOrder y ?x"
      proof
        fix y assume y: "y \<in> set spans"
        obtain s a0 e where yy: "y = (s, a0, e)" by (cases y) auto
        from I(5) y yy have "acceptedAt t s a0 e" "e \<le> lastConsumedEnd st" "s \<le> minScannedIndex st"
          by (auto simp: spanAccepted_def)
        moreover from acceptedAt_bounds [OF this(1)] have "a0 + 1 < e" by simp
        ultimately show "spanOrder y ?x"
          using match(5) sge by (simp add: spanOrder_def yy)
      qed
      have so: "sorted_wrt spanOrder (spans @ [?x])"
        using I(4) ord by (simp add: sorted_wrt_snoc)
      have new: "spanAccepted t ?x \<and> snd (snd ?x) \<le> lastConsumedEnd st' \<and> fst ?x \<le> minScannedIndex st'"
        using acc match(11,12) by (simp add: spanAccepted_def)
      have "extractInv t st' (spans @ [?x])"
        unfolding extractInv_def using em di se so mono new ml by auto
      then show ?thesis ..
    qed
  qed
qed

lemma extractLoop_rule:
  "P st \<Longrightarrow> (\<And>s s'. P s \<Longrightarrow> extractBody t s = Continue s' \<Longrightarrow> P s') \<Longrightarrow>
   (\<And>s n. P s \<Longrightarrow> P (s\<lparr>iterations := n\<rparr>)) \<Longrightarrow>
   \<exists>s. P s \<and> extractLoop t st = emails s"
proof (induction t st rule: extractLoop.induct)
  case (1 t st)
  note eq = extractLoop.simps [of t st]
  let ?st1 = "st\<lparr>iterations := iterations st + 1\<rparr>"
  have P1: "P ?st1" using "1.prems"(1,3) by simp
  show ?case
  proof (cases "pos st < length t \<and> iterations st < MAX_SCAN_ITERATIONS")
    case False
    then have "extractLoop t st = emails st" by (subst eq) auto
    then show ?thesis using "1.prems"(1) by blast
  next
    case True
    show ?thesis
    proof (cases "extractBody t ?st1")
      case (Break r)
      then have "extractLoop t st = r" by (subst eq) (use True in simp)
      moreover have "r = emails ?st1" using extractBody_Break [OF Break] .
      ultimately show ?thesis using P1 by blast
    next
      case (Continue st')
      then have e: "extractLoop t st = extractLoop t st'" by (subst eq) (use True in simp)
      have P': "P st'" using "1.prems"(2) P1 Continue by blast
      have "\<exists>s. P s \<and> extractLoop t st' = emails s"
        by (rule "1.IH" [OF True Continue P']) (use "1.prems"(2,3) in blast)+
      then show ?thesis unfolding e .
    qed
  qed
qed

lemma extractLoop_spans:
  assumes "extractInv t st spans"
  shows "\<exists>s spans'. extractInv t s spans' \<and> extractLoop t st = emails s"
proof -
  have "\<exists>s. (\<exists>spans'. extractInv t s spans') \<and> extractLoop t st = emails s"
  proof (rule extractLoop_rule [where P = "\<lambda>s. \<exists>spans'. extractInv t s spans'"])
    show "\<exists>spans'. extractInv t st spans'" using assms by blast
  next
    fix s s' assume "\<exists>spans'. extractInv t s spans'" "extractBody t s = Continue s'"
    then show "\<exists>spans'. extractInv t s' spans'" using extractInv_step by blast
  next
    fix s n assume "\<exists>spans'. extractInv t s spans'"
    then show "\<exists>spans'. extractInv t (s\<lparr>iterations := n\<rparr>) spans'"
      by (simp add: extractInv_def)
  qed
  then show ?thesis by blast
qed

definition initialExtractState :: ExtractState where
  "initialExtractState =
     \<lparr>pos = 0, minScannedIndex = 0, lastConsumedEnd = 0, totalCharsScanned = 0,
      extractedCount = 0, iterations = 0, emails = [], seen = {}\<rparr>"

lemma extractEmails_View:
  "extractEmails (View t) =
     (if length t > MAX_INPUT_SIZE \<or> length t < 5 then [] else extractLoop t initialExtractState)"
  by (simp add: extractEmails_def initialExtractState_def Let_def)

lemma extract_spans:
  "\<exists>spans. extractEmails (View t) = map (spanText t) spans \<and> distinct (extractEmails (View t)) \<and>
     sorted_wrt spanOrder spans \<and> (\<forall>x \<in> set spans. spanAccepted t x)"
proof (cases "length t > MAX_INPUT_SIZE \<or> length t < 5")
  case True
  then have "extractEmails (View t) = []" by (simp add: extractEmails_View)
  then have "extractEmails (View t) = map (spanText t) [] \<and> distinct (extractEmails (View t)) \<and>
     sorted_wrt spanOrder [] \<and> (\<forall>x \<in> set []. spanAccepted t x)" by simp
  then show ?thesis by blast
next
  case False
  have "extractInv t initialExtractState []"
    by (simp add: extractInv_def initialExtractState_def)
  from extractLoop_spans [OF this] obtain s spans where
    "extractInv t s spans" "extractLoop t initialExtractState = emails s" by blast
  then have "extractEmails (View t) = map (spanText t) spans \<and> distinct (extractEmails (View t)) \<and>
     sorted_wrt spanOrder spans \<and> (\<forall>x \<in> set spans. spanAccepted t x)"
    using False by (auto simp: extractEmails_View extractInv_def)
  then show ?thesis by blast
qed

section \<open>The shape of an accepted candidate\<close>

fun hasAtBracket :: "string \<Rightarrow> bool" where
  "hasAtBracket (a # b # cs) = ((a = CHR ''@'' \<and> b = CHR ''['') \<or> hasAtBracket (b # cs))"
| "hasAtBracket cs = False"

lemma hasAtBracket_Cons:
  "hasAtBracket (c # xs) = ((c = CHR ''@'' \<and> xs \<noteq> [] \<and> hd xs = CHR ''['') \<or> hasAtBracket xs)"
  by (cases xs) auto

lemma hasAtBracket_none:
  "CHR ''@'' \<notin> set xs \<Longrightarrow> \<not> hasAtBracket xs"
  by (induction xs) (auto simp add: hasAtBracket_Cons)

lemma hasAtBracket_append:
  "CHR ''@'' \<notin> set L \<Longrightarrow> CHR ''@'' \<notin> set D \<Longrightarrow> (D \<noteq> [] \<longrightarrow> hd D \<noteq> CHR ''['') \<Longrightarrow>
   \<not> hasAtBracket (L @ CHR ''@'' # D)"
proof (induction L)
  case Nil
  then show ?case by (auto simp add: hasAtBracket_Cons hasAtBracket_none)
next
  case (Cons c L)
  then show ?case by (auto simp add: hasAtBracket_Cons)
qed

lemma in_splitOn:
  "c \<in> set s \<Longrightarrow> c = sep \<or> (\<exists>l \<in> set (splitOn sep s). c \<in> set l)"
proof (induction s)
  case Nil
  then show ?case by simp
next
  case (Cons x s)
  obtain h rest where r: "splitOn sep s = h # rest"
    using splitOn_ne [of sep s] by (cases "splitOn sep s") simp_all
  show ?case
  proof (cases "x = sep")
    case True
    then show ?thesis using Cons by auto
  next
    case False
    then have sp: "splitOn sep (x # s) = (x # h) # rest" using r by simp
    show ?thesis
    proof (cases "c = x")
      case True
      then show ?thesis unfolding sp by simp
    next
      case ne: False
      then have "c \<in> set s" using Cons.prems by simp
      from Cons.IH [OF this] show ?thesis
      proof
        assume "c = sep" then show ?thesis by simp
      next
        assume "\<exists>l \<in> set (splitOn sep s). c \<in> set l"
        then obtain l where l: "l \<in> set (h # rest)" "c \<in> set l" unfolding r by blast
        then have "l = h \<or> l \<in> set rest" by simp
        then show ?thesis unfolding sp using l(2) by auto
      qed
    qed
  qed
qed

lemma domain_chars:
  assumes "domainLabelsSpec d" "c \<in> set d"
  shows "c = CHR ''.'' \<or> c = CHR ''-'' \<or> asciiAlnum c"
proof -
  from in_splitOn [OF assms(2), of "CHR ''.''"] show ?thesis
  proof
    assume "c = CHR ''.''" then show ?thesis by simp
  next
    assume "\<exists>l \<in> set (splitOn (CHR ''.'') d). c \<in> set l"
    then obtain l where "l \<in> set (splitOn (CHR ''.'') d)" "c \<in> set l" by blast
    moreover have "labelOk l" using assms(1) calculation(1) by (simp add: domainLabelsSpec_def)
    ultimately show ?thesis by (auto simp: labelOk_def)
  qed
qed

lemma not_alnum_at: "\<not> asciiAlnum (CHR ''@'')" "\<not> asciiAlnum (CHR ''['')"
  by (simp_all add: asciiAlnum_def asciiLetter_def asciiDigit_def)

lemma domain_no_at:
  assumes "domainLabelsSpec d"
  shows "CHR ''@'' \<notin> set d" and "hd d \<noteq> CHR ''[''"
proof -
  show "CHR ''@'' \<notin> set d" using domain_chars [OF assms, of "CHR ''@''"] not_alnum_at by auto
  have "1 \<le> length d" using assms by (simp add: domainLabelsSpec_def)
  then have "d \<noteq> []" by auto
  then have "hd d \<in> set d" by simp
  from domain_chars [OF assms this] show "hd d \<noteq> CHR ''[''" using not_alnum_at by auto
qed

lemma local_no_at:
  assumes "scanLocalSpec l"
  shows "CHR ''@'' \<notin> set l"
proof
  assume mem: "CHR ''@'' \<in> set l"
  have "\<forall>c \<in> set l. c = CHR ''.'' \<or> isAtext c"
    using assms by (simp add: scanLocalSpec_def)
  from bspec [OF this mem] show False using not_isAtext_at by simp
qed

lemma acceptedAt_decompose:
  assumes "acceptedAt t s a e"
  shows "slice t s e = slice t s a @ CHR ''@'' # slice t (a + 1) e"
    and "scanLocalSpec (slice t s a)" and "domainLabelsSpec (slice t (a + 1) e)"
    and "s < a" and "a + 1 < e" and "e \<le> length t"
proof -
  from acceptedAt_bounds [OF assms] show b: "s < a" "a + 1 < e" "e \<le> length t" by simp_all
  have at: "t ! a = CHR ''@''" using assms unfolding acceptedAt_def by blast
  have nb: "t ! (a + 1) \<noteq> CHR ''[''" using assms unfolding acceptedAt_def by blast
  have vl: "validateLocalPart t s a SCAN" using assms unfolding acceptedAt_def by blast
  have vd: "validateDomainPart t (a + 1) e" using assms unfolding acceptedAt_def by blast
  have "slice t s e = slice t s a @ slice t a e"
    by (rule slice_append) (use b in simp_all)
  also have "slice t a e = t ! a # slice t (Suc a) e"
    by (rule slice_Cons) (use b in simp_all)
  finally show "slice t s e = slice t s a @ CHR ''@'' # slice t (a + 1) e" using at by simp
  show "scanLocalSpec (slice t s a)"
    using vl by (simp add: validateLocalPart_SCAN)
  show "domainLabelsSpec (slice t (a + 1) e)"
    using validateDomainPart_labels [of "a + 1" e t] nb vd by simp
qed

text \<open>What an accepted candidate looks like as a string of its own.\<close>

lemma acceptedAt_shape:
  assumes "acceptedAt t s a e"
  defines "m \<equiv> slice t s e" and "k \<equiv> a - s"
  shows "s + length m \<le> length t" "m = slice t s (s + length m)" "k < length m" "m ! k = CHR ''@''"
    "count_list m (CHR ''@'') = 1" "scanLocalSpec (take k m)" "domainLabelsSpec (drop (k + 1) m)"
    "validateLocalPart m 0 k SCAN" "validateDomainPart m (k + 1) (length m)"
    "\<not> hasAtBracket m" "0 < k" "length m \<le> 318"
    "\<forall>i < k. m ! i \<noteq> CHR ''@''" "CHR ''@'' \<notin> set (drop (k + 1) m)"
proof -
  note d = acceptedAt_decompose [OF assms(1)]
  let ?L = "slice t s a" and ?D = "slice t (a + 1) e"
  note b = d(4,5,6)
  have lenL: "length ?L = k" using b unfolding k_def by simp
  have lenm: "length m = e - s" using b unfolding m_def by simp
  have mm: "m = ?L @ CHR ''@'' # ?D" unfolding m_def by (rule d(1))
  show "s + length m \<le> length t" using b lenm by simp
  show "m = slice t s (s + length m)" using b lenm unfolding m_def by simp
  show "k < length m" using b lenm unfolding k_def by simp
  show "m ! k = CHR ''@''" unfolding mm using lenL by (simp add: nth_append)
  have nl: "CHR ''@'' \<notin> set ?L" using local_no_at [OF d(2)] .
  have nd: "CHR ''@'' \<notin> set ?D" using domain_no_at(1) [OF d(3)] .
  have hdD: "hd ?D \<noteq> CHR ''[''" using domain_no_at(2) [OF d(3)] .
  show "count_list m (CHR ''@'') = 1" unfolding mm using nl nd by (simp add: count_list_0_iff)
  have tk: "take k m = ?L" unfolding mm using lenL by simp
  have dk: "drop (k + 1) m = ?D" unfolding mm using lenL by simp
  show "scanLocalSpec (take k m)" unfolding tk by (rule d(2))
  show "domainLabelsSpec (drop (k + 1) m)" unfolding dk by (rule d(3))
  have sl0: "slice m 0 k = take k m" by (simp add: slice_def substr_def)
  have sl1: "slice m (k + 1) (length m) = drop (k + 1) m" by (simp add: slice_def substr_def)
  show "validateLocalPart m 0 k SCAN"
    unfolding validateLocalPart_SCAN sl0 tk using d(2) \<open>k < length m\<close> by simp
  have "m ! (k + 1) = hd ?D"
  proof -
    have "0 < length ?D" using b by simp
    then have "?D \<noteq> []" by simp
    then show ?thesis unfolding mm using lenL by (simp add: nth_append hd_conv_nth)
  qed
  then have nb: "m ! (k + 1) \<noteq> CHR ''[''" using hdD by simp
  show "validateDomainPart m (k + 1) (length m)"
    using validateDomainPart_labels [of "k + 1" "length m" m] nb d(3) sl1 dk by simp
  show "\<not> hasAtBracket m" unfolding mm by (rule hasAtBracket_append) (use nl nd hdD in simp_all)
  show "0 < k" using b unfolding k_def by simp
  have "length ?L \<le> 64" using d(2) by (simp add: scanLocalSpec_def)
  moreover have "length ?D \<le> 253" using d(3) by (simp add: domainLabelsSpec_def)
  ultimately show "length m \<le> 318" unfolding mm by simp
  show "\<forall>i < k. m ! i \<noteq> CHR ''@''"
  proof (intro allI impI)
    fix i assume "i < k"
    then have "m ! i = ?L ! i" "?L ! i \<in> set ?L" unfolding mm using lenL by (simp_all add: nth_append)
    then show "m ! i \<noteq> CHR ''@''" using nl by metis
  qed
  show "CHR ''@'' \<notin> set (drop (k + 1) m)" unfolding dk by (rule nd)
qed

lemma extract_member:
  assumes "m \<in> set (extractEmails (View t))"
  shows "\<exists>s a e. acceptedAt t s a e \<and> m = slice t s e"
proof -
  from extract_spans [of t] obtain spans where
    sp: "extractEmails (View t) = map (spanText t) spans" "\<forall>x \<in> set spans. spanAccepted t x"
    by blast
  from assms sp(1) obtain x where x: "x \<in> set spans" "m = spanText t x" by auto
  obtain s a e where "x = (s, a, e)" by (cases x) auto
  then have "acceptedAt t s a e" "m = slice t s e"
    using x sp(2) by (auto simp: spanText_def spanAccepted_def)
  then show ?thesis by blast
qed

section \<open>The loops of contains and extract side by side\<close>

text \<open>The two loop bodies side by side.  Once the next anchor is known, both bodies are the
  same cascade of tests on the same boundaries.\<close>

lemma containsBody_eq:
  fixes st :: ScanState
  assumes "memchr t (CHR ''@'') (pos st) = Some a"
    and "b = findEmailBoundaries t a (minScannedIndex st)"
    and "tot = totalCharsScanned st + (a - b_start b) + (b_end b - a)"
  shows "containsBody t st =
     (if a < 1 \<or> a \<ge> length t - 3 then Continue (st\<lparr>pos := a + 1\<rparr>)
      else if a < lastConsumedEnd st then Continue (st\<lparr>pos := a + 1\<rparr>)
      else if tot > MAX_TOTAL_CHARS_SCANNED then Break False
      else if \<not> validBoundaries b then
        (if skipTo b > 0 then Continue (st\<lparr>pos := skipTo b, totalCharsScanned := tot\<rparr>)
         else Continue (st\<lparr>pos := a + 1, totalCharsScanned := tot\<rparr>))
      else if validateLocalPart t (b_start b) a SCAN \<and> validateDomainPart t (a + 1) (b_end b)
        then Break True
      else Continue (st\<lparr>pos := a + 1, totalCharsScanned := tot\<rparr>))"
  unfolding containsBody_def Let_def assms(1) option.case assms(2) [symmetric] assms(3) [symmetric]
  by (rule refl)

lemma extractBody_eq:
  fixes st :: ExtractState
  assumes "memchr t (CHR ''@'') (pos st) = Some a"
    and "\<not> extractedCount st \<ge> MAX_EMAILS_EXTRACT"
    and "b = findEmailBoundaries t a (minScannedIndex st)"
    and "tot = totalCharsScanned st + (a - b_start b) + (b_end b - a)"
  shows "extractBody t st =
     (if a < 1 \<or> a \<ge> length t - 3 then Continue (st\<lparr>pos := a + 1\<rparr>)
      else if a < lastConsumedEnd st then Continue (st\<lparr>pos := a + 1\<rparr>)
      else if tot > MAX_TOTAL_CHARS_SCANNED then Break (emails st)
      else if \<not> validBoundaries b then
        (if skipTo b > 0 then Continue (st\<lparr>pos := skipTo b, totalCharsScanned := tot\<rparr>)
         else Continue (st\<lparr>pos := a + 1, totalCharsScanned := tot\<rparr>))
      else if validateLocalPart t (b_start b) a SCAN \<and> validateDomainPart t (a + 1) (b_end b) then
        (if b_start b \<ge> length t \<or> b_end b > length t \<or> b_start b \<ge> b_end b
         then Continue (st\<lparr>pos := a + 1, totalCharsScanned := tot\<rparr>)
         else Continue (st\<lparr>pos := b_end b,
               minScannedIndex := max (minScannedIndex st) (b_start b),
               lastConsumedEnd := max (lastConsumedEnd st) (b_end b),
               totalCharsScanned := tot,
               extractedCount := (if slice t (b_start b) (b_end b) \<notin> seen st
                                  then extractedCount st + 1 else extractedCount st),
               emails := (if slice t (b_start b) (b_end b) \<notin> seen st
                          then emails st @ [slice t (b_start b) (b_end b)] else emails st),
               seen := insert (slice t (b_start b) (b_end b)) (seen st)\<rparr>))
      else Continue (st\<lparr>pos := a + 1, totalCharsScanned := tot\<rparr>))"
proof -
  have nb: "(MAX_EMAILS_EXTRACT \<le> extractedCount st) = False" using assms(2) by simp
  show ?thesis
    unfolding extractBody_def Let_def assms(1) nb assms(3) [symmetric] assms(4) [symmetric]
      slice_def option.case if_False if_cancel not_not
    by (rule refl)
qed

text \<open>A state of \<open>contains\<close> and a state of \<open>extract\<close> that has recorded no match yet.\<close>

definition scanRel :: "ScanState \<Rightarrow> ExtractState \<Rightarrow> bool" where
  "scanRel sc se =
     (pos se = pos sc \<and> minScannedIndex se = minScannedIndex sc \<and>
      lastConsumedEnd se = lastConsumedEnd sc \<and> totalCharsScanned se = totalCharsScanned sc \<and>
      emails se = [] \<and> seen se = {} \<and> extractedCount se = 0)"

lemma scanRel_iterations: "scanRel sc se \<Longrightarrow> scanRel sc (se\<lparr>iterations := n\<rparr>)"
  by (simp add: scanRel_def)

lemma body_sim:
  assumes R: "scanRel sc se"
  shows
   "(containsBody t sc = Break False \<and> extractBody t se = Break []) \<or>
    (containsBody t sc = Break True \<and> (\<exists>se'. extractBody t se = Continue se' \<and> emails se' \<noteq> []) \<and>
       (\<exists>s a e. acceptedAt t s a e)) \<or>
    (\<exists>sc' se' a. containsBody t sc = Continue sc' \<and> extractBody t se = Continue se' \<and>
       scanRel sc' se' \<and> iterations se' = iterations se \<and>
       memchr t (CHR ''@'') (pos sc) = Some a \<and> a < pos sc')"
proof (cases "memchr t (CHR ''@'') (pos sc)")
  case None
  then have "containsBody t sc = Break False" by (simp add: containsBody_def)
  moreover have "extractBody t se = Break []"
    using None R by (simp add: extractBody_def scanRel_def MAX_EMAILS_EXTRACT_def)
  ultimately show ?thesis by simp
next
  case (Some a)
  from memchr_Some [OF Some] have a: "pos sc \<le> a" "a < length t" "t ! a = CHR ''@''" by simp_all
  define b where "b = findEmailBoundaries t a (minScannedIndex sc)"
  define tot where "tot = totalCharsScanned sc + (a - b_start b) + (b_end b - a)"
  have me: "memchr t (CHR ''@'') (pos se) = Some a" using Some R by (simp add: scanRel_def)
  have cnt: "\<not> extractedCount se \<ge> MAX_EMAILS_EXTRACT"
    using R by (simp add: scanRel_def MAX_EMAILS_EXTRACT_def)
  have be: "b = findEmailBoundaries t a (minScannedIndex se)"
    using R by (simp add: b_def scanRel_def)
  have te: "tot = totalCharsScanned se + (a - b_start b) + (b_end b - a)"
    using R by (simp add: tot_def scanRel_def)
  note cb = containsBody_eq [OF Some b_def tot_def]
  note eb = extractBody_eq [OF me cnt be te]
  have lce: "lastConsumedEnd se = lastConsumedEnd sc" using R by (simp add: scanRel_def)
  have step: "\<And>sc' se' . containsBody t sc = Continue sc' \<Longrightarrow> extractBody t se = Continue se' \<Longrightarrow>
      scanRel sc' se' \<Longrightarrow> iterations se' = iterations se \<Longrightarrow> a < pos sc' \<Longrightarrow> ?thesis"
    using Some by blast
  show ?thesis
  proof (cases "a < 1 \<or> a \<ge> length t - 3")
    case True
    have 1: "containsBody t sc = Continue (sc\<lparr>pos := a + 1\<rparr>)" unfolding cb using True by simp
    have 2: "extractBody t se = Continue (se\<lparr>pos := a + 1\<rparr>)" unfolding eb using True by simp
    show ?thesis by (rule step [OF 1 2]) (use R in \<open>simp_all add: scanRel_def\<close>)
  next
    case c1: False
    show ?thesis
    proof (cases "a < lastConsumedEnd sc")
      case True
      have 1: "containsBody t sc = Continue (sc\<lparr>pos := a + 1\<rparr>)"
        unfolding cb using c1 True by simp
      have 2: "extractBody t se = Continue (se\<lparr>pos := a + 1\<rparr>)"
        unfolding eb using c1 True lce by simp
      show ?thesis by (rule step [OF 1 2]) (use R in \<open>simp_all add: scanRel_def\<close>)
    next
      case c2: False
      show ?thesis
      proof (cases "tot > MAX_TOTAL_CHARS_SCANNED")
        case True
        have 1: "containsBody t sc = Break False" unfolding cb using c1 c2 True by simp
        have 2: "extractBody t se = Break []"
          unfolding eb using c1 c2 True lce R by (simp add: scanRel_def)
        show ?thesis using 1 2 by simp
      next
        case c3: False
        show ?thesis
        proof (cases "validBoundaries b")
          case False
          have sk: "skipTo b > 0 \<Longrightarrow> skipTo b = a + 1"
            using findEmailBoundaries_skipTo [OF a(2), of "minScannedIndex sc"] False
            unfolding b_def by auto
          show ?thesis
          proof (cases "skipTo b > 0")
            case True
            have 1: "containsBody t sc = Continue (sc\<lparr>pos := skipTo b, totalCharsScanned := tot\<rparr>)"
              unfolding cb using c1 c2 c3 False True by simp
            have 2: "extractBody t se = Continue (se\<lparr>pos := skipTo b, totalCharsScanned := tot\<rparr>)"
              unfolding eb using c1 c2 c3 False True lce by simp
            show ?thesis by (rule step [OF 1 2]) (use R sk True in \<open>simp_all add: scanRel_def\<close>)
          next
            case z: False
            have 1: "containsBody t sc = Continue (sc\<lparr>pos := a + 1, totalCharsScanned := tot\<rparr>)"
              unfolding cb using c1 c2 c3 False z by simp
            have 2: "extractBody t se = Continue (se\<lparr>pos := a + 1, totalCharsScanned := tot\<rparr>)"
              unfolding eb using c1 c2 c3 False z lce by simp
            show ?thesis by (rule step [OF 1 2]) (use R in \<open>simp_all add: scanRel_def\<close>)
          qed
        next
          case c4: True
          show ?thesis
          proof (cases "validateLocalPart t (b_start b) a SCAN \<and> validateDomainPart t (a + 1) (b_end b)")
            case False
            have 1: "containsBody t sc = Continue (sc\<lparr>pos := a + 1, totalCharsScanned := tot\<rparr>)"
              unfolding cb using c1 c2 c3 c4 False by auto
            have 2: "extractBody t se = Continue (se\<lparr>pos := a + 1, totalCharsScanned := tot\<rparr>)"
              unfolding eb using c1 c2 c3 c4 False lce by auto
            show ?thesis by (rule step [OF 1 2]) (use R in \<open>simp_all add: scanRel_def\<close>)
          next
            case c5: True
            have 1: "containsBody t sc = Break True" unfolding cb using c1 c2 c3 c4 c5 by simp
            from c5 validateLocalPart_bounds [of t "b_start b" a SCAN]
              validateDomainPart_bounds [of t "a + 1" "b_end b"]
            have bd: "b_start b < a" "a + 1 < b_end b" "b_end b \<le> length t" by simp_all
            then have sane: "\<not> (b_start b \<ge> length t \<or> b_end b > length t \<or> b_start b \<ge> b_end b)"
              by simp
            have sn: "seen se = {}" "emails se = []" using R by (simp_all add: scanRel_def)
            have "\<exists>se'. extractBody t se = Continue se' \<and> emails se' = [slice t (b_start b) (b_end b)]"
              unfolding eb using c1 c2 c3 c4 c5 sane lce sn by simp
            then have 2: "\<exists>se'. extractBody t se = Continue se' \<and> emails se' \<noteq> []" by auto
            have a1: "a + 1 < length t" using bd by simp
            have nbr: "t ! (a + 1) \<noteq> CHR ''[''"
              using validBoundaries_not_bracket [of t a "minScannedIndex sc"] c4 a1
              unfolding b_def by simp
            have "acceptedAt t (b_start b) a (b_end b)"
              unfolding acceptedAt_def
              using a1 a(3) nbr c5 c4 unfolding b_def by blast
            then have 3: "\<exists>s a e. acceptedAt t s a e" by blast
            show ?thesis using 1 2 3 by blast
          qed
        qed
      qed
    qed
  qed
qed

lemma extractLoop_grows:
  assumes "emails st \<noteq> []"
  shows "extractLoop t st \<noteq> []"
proof -
  have "\<exists>s :: ExtractState. emails s \<noteq> [] \<and> extractLoop t st = emails s"
  proof (rule extractLoop_rule [where P = "\<lambda>s. emails s \<noteq> []"])
    show "emails st \<noteq> []" by (rule assms)
  next
    fix s s' :: ExtractState
    assume "emails s \<noteq> []" "extractBody t s = Continue s'"
    then show "emails s' \<noteq> []" using extractBody_Continue [of t s s'] by (auto split: if_splits)
  next
    fix s :: ExtractState and n
    assume "emails s \<noteq> []"
    then show "emails (s\<lparr>iterations := n\<rparr>) \<noteq> []" by simp
  qed
  then show ?thesis by auto
qed

lemma extract_imp_contains:
  "scanRel sc se \<Longrightarrow> extractLoop t se \<noteq> [] \<Longrightarrow> containsLoop t sc"
proof (induction t se arbitrary: sc rule: extractLoop.induct)
  case (1 t se)
  have em: "emails se = []" using "1.prems"(1) by (simp add: scanRel_def)
  have cond: "pos se < length t \<and> iterations se < MAX_SCAN_ITERATIONS"
  proof (rule ccontr)
    assume "\<not> ?thesis"
    then have "extractLoop t se = emails se" by (subst extractLoop.simps) auto
    then show False using "1.prems"(2) em by simp
  qed
  let ?se = "se\<lparr>iterations := iterations se + 1\<rparr>"
  have ps: "pos sc < length t" using cond "1.prems"(1) by (simp add: scanRel_def)
  have el: "extractLoop t se =
      (case extractBody t ?se of Break r \<Rightarrow> r | Continue st' \<Rightarrow> extractLoop t st')"
    by (subst extractLoop.simps) (use cond in simp)
  have cl: "containsLoop t sc =
      (case containsBody t sc of Break r \<Rightarrow> r | Continue st' \<Rightarrow> containsLoop t st')"
    by (subst containsLoop.simps) (use ps in simp)
  from body_sim [OF scanRel_iterations [OF "1.prems"(1), of "iterations se + 1"], of t]
  consider (bf) "containsBody t sc = Break False" "extractBody t ?se = Break []"
    | (bt) "containsBody t sc = Break True"
    | (co) sc' se' where "containsBody t sc = Continue sc'" "extractBody t ?se = Continue se'"
        "scanRel sc' se'"
    by blast
  then show ?case
  proof cases
    case bf
    then have "extractLoop t se = []" unfolding el by simp
    then show ?thesis using "1.prems"(2) by simp
  next
    case bt
    then show ?thesis unfolding cl by simp
  next
    case co
    have "extractLoop t se' \<noteq> []" using "1.prems"(2) unfolding el co(2) by simp
    from "1.IH" [OF cond co(2) co(3) this] show ?thesis unfolding cl co(1) by simp
  qed
qed

lemma count_drop_mono: "p \<le> q \<Longrightarrow> count_list (drop q t) c \<le> count_list (drop p t) c"
proof (induction "q - p" arbitrary: p)
  case 0
  then show ?case by simp
next
  case (Suc n)
  then have "n = q - Suc p" "Suc p \<le> q" by simp_all
  from Suc.hyps(1) [OF this] have IH: "count_list (drop q t) c \<le> count_list (drop (Suc p) t) c" .
  show ?case
  proof (cases "p < length t")
    case True
    then have "drop p t = t ! p # drop (Suc p) t" by (simp add: Cons_nth_drop_Suc)
    then show ?thesis using IH by simp
  next
    case False
    then show ?thesis using Suc.prems by simp
  qed
qed

lemma count_drop_at:
  assumes "a < length t" "t ! a = c"
  shows "count_list (drop a t) c = Suc (count_list (drop (Suc a) t) c)"
proof -
  have "drop a t = t ! a # drop (Suc a) t" using assms(1) by (simp add: Cons_nth_drop_Suc)
  then show ?thesis using assms(2) by simp
qed

lemma contains_imp_extract:
  "scanRel sc se \<Longrightarrow> containsLoop t sc \<Longrightarrow>
   iterations se + count_list (drop (pos sc) t) (CHR ''@'') \<le> MAX_SCAN_ITERATIONS \<Longrightarrow>
   extractLoop t se \<noteq> []"
proof (induction t sc arbitrary: se rule: containsLoop.induct)
  case (1 t sc)
  have ps: "pos sc < length t"
  proof (rule ccontr)
    assume "\<not> ?thesis"
    then have "containsLoop t sc = False" by (subst containsLoop.simps) simp
    then show False using "1.prems"(2) by simp
  qed
  have cl: "containsLoop t sc =
      (case containsBody t sc of Break r \<Rightarrow> r | Continue st' \<Rightarrow> containsLoop t st')"
    by (subst containsLoop.simps) (use ps in simp)
  let ?se = "se\<lparr>iterations := iterations se + 1\<rparr>"
  from body_sim [OF scanRel_iterations [OF "1.prems"(1), of "iterations se + 1"], of t]
  consider (bf) "containsBody t sc = Break False"
    | (bt) se' where "containsBody t sc = Break True" "extractBody t ?se = Continue se'" "emails se' \<noteq> []"
    | (co) sc' se' a where "containsBody t sc = Continue sc'" "extractBody t ?se = Continue se'"
        "scanRel sc' se'" "iterations se' = iterations ?se"
        "memchr t (CHR ''@'') (pos sc) = Some a" "a < pos sc'"
    by blast
  then show ?case
  proof cases
    case bf
    then show ?thesis using "1.prems"(2) unfolding cl by simp
  next
    case bt
    have "memchr t (CHR ''@'') (pos sc) \<noteq> None"
    proof
      assume "memchr t (CHR ''@'') (pos sc) = None"
      then have "containsBody t sc = Break False" by (simp add: containsBody_def)
      then show False using bt(1) by simp
    qed
    then obtain a where m: "memchr t (CHR ''@'') (pos sc) = Some a" by auto
    from memchr_Some [OF m] have a: "pos sc \<le> a" "a < length t" "t ! a = CHR ''@''" by simp_all
    have "1 \<le> count_list (drop (pos sc) t) (CHR ''@'')"
      using count_drop_mono [OF a(1), of t "CHR ''@''"] count_drop_at [OF a(2,3)] by simp
    then have cond: "pos se < length t \<and> iterations se < MAX_SCAN_ITERATIONS"
      using ps "1.prems"(1,3) by (simp add: scanRel_def)
    have el: "extractLoop t se =
        (case extractBody t ?se of Break r \<Rightarrow> r | Continue st' \<Rightarrow> extractLoop t st')"
      by (subst extractLoop.simps) (use cond in simp)
    show ?thesis unfolding el bt(2) using extractLoop_grows [OF bt(3)] by simp
  next
    case co
    from memchr_Some [OF co(5)] have a: "pos sc \<le> a" "a < length t" "t ! a = CHR ''@''" by simp_all
    have c1: "Suc (count_list (drop (Suc a) t) (CHR ''@'')) \<le> count_list (drop (pos sc) t) (CHR ''@'')"
      using count_drop_mono [OF a(1), of t "CHR ''@''"] count_drop_at [OF a(2,3)] by simp
    have c2: "count_list (drop (pos sc') t) (CHR ''@'') \<le> count_list (drop (Suc a) t) (CHR ''@'')"
      by (rule count_drop_mono) (use co(6) in simp)
    have cond: "pos se < length t \<and> iterations se < MAX_SCAN_ITERATIONS"
      using ps "1.prems"(1,3) c1 by (simp add: scanRel_def)
    have el: "extractLoop t se =
        (case extractBody t ?se of Break r \<Rightarrow> r | Continue st' \<Rightarrow> extractLoop t st')"
      by (subst extractLoop.simps) (use cond in simp)
    have cl': "containsLoop t sc'" using "1.prems"(2) unfolding cl co(1) by simp
    have it: "iterations se' + count_list (drop (pos sc') t) (CHR ''@'') \<le> MAX_SCAN_ITERATIONS"
      using "1.prems"(3) c1 c2 co(4) by simp
    from "1.IH" [OF ps co(1) co(3) cl' it] show ?thesis unfolding el co(2) by simp
  qed
qed

text \<open>A positive answer of \<open>contains\<close> comes from an anchor that both validators accept.\<close>

lemma containsLoop_accepted:
  "containsLoop t sc \<Longrightarrow> \<exists>s a e. acceptedAt t s a e"
proof (induction t sc rule: containsLoop.induct)
  case (1 t sc)
  have ps: "pos sc < length t"
  proof (rule ccontr)
    assume "\<not> ?thesis"
    then have "containsLoop t sc = False" by (subst containsLoop.simps) simp
    then show False using "1.prems" by simp
  qed
  have cl: "containsLoop t sc =
      (case containsBody t sc of Break r \<Rightarrow> r | Continue st' \<Rightarrow> containsLoop t st')"
    by (subst containsLoop.simps) (use ps in simp)
  define se :: ExtractState where "se = \<lparr>pos = pos sc, minScannedIndex = minScannedIndex sc,
    lastConsumedEnd = lastConsumedEnd sc, totalCharsScanned = totalCharsScanned sc,
    extractedCount = 0, iterations = 0, emails = [], seen = {}\<rparr>"
  have R: "scanRel sc se" by (simp add: scanRel_def se_def)
  from body_sim [OF R, of t]
  consider (bf) "containsBody t sc = Break False"
    | (bt) "\<exists>s a e. acceptedAt t s a e"
    | (co) sc' where "containsBody t sc = Continue sc'"
    by blast
  then show ?case
  proof cases
    case bf
    then show ?thesis using "1.prems" unfolding cl by simp
  next
    case bt
    then show ?thesis .
  next
    case co
    have "containsLoop t sc'" using "1.prems" unfolding cl co by simp
    from "1.IH" [OF ps co this] show ?thesis .
  qed
qed




lemma contains_View:
  "contains (View t) =
     (if length t > MAX_INPUT_SIZE \<or> length t < 5 then False
      else containsLoop t
             \<lparr>pos = 0, minScannedIndex = 0, lastConsumedEnd = 0, totalCharsScanned = 0\<rparr>)"
  by (simp add: contains_def Let_def)

lemma scanRel_initial:
  "scanRel \<lparr>pos = 0, minScannedIndex = 0, lastConsumedEnd = 0, totalCharsScanned = 0\<rparr>
     initialExtractState"
  by (simp add: scanRel_def initialExtractState_def)

lemma extract_nonempty_contains:
  "extractEmails (View t) \<noteq> [] \<Longrightarrow> contains (View t)"
  unfolding contains_View extractEmails_View
  using extract_imp_contains [OF scanRel_initial, of t] by (simp split: if_splits)

lemma contains_extract_nonempty:
  assumes "count_list t (CHR ''@'') \<le> MAX_SCAN_ITERATIONS" "contains (View t)"
  shows "extractEmails (View t) \<noteq> []"
proof -
  have g: "\<not> (length t > MAX_INPUT_SIZE \<or> length t < 5)"
    using assms(2) unfolding contains_View by (simp split: if_splits)
  then have "containsLoop t \<lparr>pos = 0, minScannedIndex = 0, lastConsumedEnd = 0, totalCharsScanned = 0\<rparr>"
    using assms(2) unfolding contains_View by simp
  from contains_imp_extract [OF scanRel_initial this]
  have "extractLoop t initialExtractState \<noteq> []"
    using assms(1) by (simp add: initialExtractState_def)
  then show ?thesis using g by (simp add: extractEmails_View)
qed

lemma containsBody_bracket:
  assumes "memchr t (CHR ''@'') (pos st) = Some a" "a + 1 < length t" "t ! (a + 1) = CHR ''[''"
  shows "containsBody t st \<noteq> Break True"
proof -
  define b where "b = findEmailBoundaries t a (minScannedIndex st)"
  define tot where "tot = totalCharsScanned st + (a - b_start b) + (b_end b - a)"
  have nv: "\<not> validBoundaries b"
    unfolding b_def using findEmailBoundaries_bracket [OF assms(2,3)] by simp
  show ?thesis
    unfolding containsBody_eq [OF assms(1) b_def tot_def] using nv by simp
qed

section \<open>Traces of the scanner\<close>

lemma extractLoop_unfold:
  "pos st < length t \<Longrightarrow> iterations st < MAX_SCAN_ITERATIONS \<Longrightarrow>
   extractLoop t st =
     (case extractBody t (st\<lparr>iterations := iterations st + 1\<rparr>) of
        Break r \<Rightarrow> r | Continue st' \<Rightarrow> extractLoop t st')"
  by (subst extractLoop.simps) simp

lemma extractLoop_done: "\<not> pos st < length t \<Longrightarrow> extractLoop t st = emails st"
  by (subst extractLoop.simps) simp

text \<open>One iteration of the loop of \<open>extract\<close> at an anchor that is accepted, and the
  iteration that finds no further anchor.\<close>

lemma extractLoop_match:
  assumes ev: "memchr t (CHR ''@'') p = Some a \<and>
      b_start (findEmailBoundaries t a msi) = s \<and> b_end (findEmailBoundaries t a msi) = e \<and>
      validBoundaries (findEmailBoundaries t a msi) \<and>
      validateLocalPart t s a SCAN \<and> validateDomainPart t (a + 1) e \<and> slice t s e = m"
    and st: "pos st = p" "minScannedIndex st = msi"
    and guards: "p < length t" "iterations st < MAX_SCAN_ITERATIONS"
      "extractedCount st < MAX_EMAILS_EXTRACT" "1 \<le> a" "a + 3 < length t"
      "lastConsumedEnd st \<le> a"
      "totalCharsScanned st + (a - s) + (e - a) \<le> MAX_TOTAL_CHARS_SCANNED"
    and st': "st' =
     \<lparr>pos = e, minScannedIndex = max msi s, lastConsumedEnd = max (lastConsumedEnd st) e,
      totalCharsScanned = totalCharsScanned st + (a - s) + (e - a),
      extractedCount = (if m \<in> seen st then extractedCount st else extractedCount st + 1),
      iterations = iterations st + 1,
      emails = (if m \<in> seen st then emails st else emails st @ [m]),
      seen = insert m (seen st)\<rparr>"
  shows "extractLoop t st = extractLoop t st'"
proof -
  let ?st = "st\<lparr>iterations := iterations st + 1\<rparr>"
  have m: "memchr t (CHR ''@'') (pos ?st) = Some a" using ev st by simp
  have c: "\<not> extractedCount ?st \<ge> MAX_EMAILS_EXTRACT" using guards by simp
  have v: "validateLocalPart t s a SCAN" "validateDomainPart t (a + 1) e" using ev by simp_all
  from v validateLocalPart_bounds [of t s a SCAN] validateDomainPart_bounds [of t "a + 1" e]
  have sane: "\<not> (s \<ge> length t \<or> e > length t \<or> s \<ge> e)" by simp
  have "extractBody t ?st = Continue st'"
    unfolding extractBody_eq [OF m c refl refl] st'
    using guards sane st ev by simp
  then show ?thesis
    using extractLoop_unfold [of st t] guards st by simp
qed

lemma extractLoop_no_anchor:
  assumes "memchr t (CHR ''@'') p = None" "pos st = p"
  shows "extractLoop t st = emails st"
proof (cases "pos st < length t \<and> iterations st < MAX_SCAN_ITERATIONS")
  case True
  have "extractBody t (st\<lparr>iterations := iterations st + 1\<rparr>) = Break (emails st)"
    using assms by (simp add: extractBody_def Let_def)
  then show ?thesis using extractLoop_unfold [of st t] True by simp
next
  case False
  then show ?thesis by (subst extractLoop.simps) auto
qed

text \<open>Two runs of \<open>extract\<close>, traced one loop iteration at a time.\<close>

lemma extract_short_domain: "extractEmails (View ''a@b cd'') = [''a@b'']"
proof -
  let ?T = "''a@b cd''"
  have e1: "memchr ?T (CHR ''@'') 0 = Some 1 \<and>
      b_start (findEmailBoundaries ?T 1 0) = 0 \<and> b_end (findEmailBoundaries ?T 1 0) = 3 \<and>
      validBoundaries (findEmailBoundaries ?T 1 0) \<and>
      validateLocalPart ?T 0 1 SCAN \<and> validateDomainPart ?T (1 + 1) 3 \<and> slice ?T 0 3 = ''a@b''"
    by code_simp
  have e2: "memchr ?T (CHR ''@'') 3 = None" by code_simp
  have "extractLoop ?T initialExtractState = extractLoop ?T
     \<lparr>pos = 3, minScannedIndex = 0, lastConsumedEnd = 3, totalCharsScanned = 3,
      extractedCount = 1, iterations = 1, emails = [''a@b''], seen = {''a@b''}\<rparr>"
    by (rule extractLoop_match [OF e1])
      (simp_all add: initialExtractState_def MAX_SCAN_ITERATIONS_def MAX_EMAILS_EXTRACT_def
        MAX_TOTAL_CHARS_SCANNED_def)
  also have "\<dots> = [''a@b'']"
    by (subst extractLoop_no_anchor [OF e2]) simp_all
  finally show ?thesis by (simp add: extractEmails_View MAX_INPUT_SIZE_def)
qed

lemma boundaries_overlap:
  "memchr ''user@domain@com'' (CHR ''@'') 0 = Some 4 \<and>
   b_start (findEmailBoundaries ''user@domain@com'' 4 0) = 0 \<and>
   b_end (findEmailBoundaries ''user@domain@com'' 4 0) = 11 \<and>
   validBoundaries (findEmailBoundaries ''user@domain@com'' 4 0) \<and>
   validateLocalPart ''user@domain@com'' 0 4 SCAN \<and>
   validateDomainPart ''user@domain@com'' (4 + 1) 11 \<and>
   slice ''user@domain@com'' 0 11 = ''user@domain''"
  "memchr ''user@domain@com'' (CHR ''@'') 11 = Some 11 \<and>
   b_start (findEmailBoundaries ''user@domain@com'' 11 0) = 5 \<and>
   b_end (findEmailBoundaries ''user@domain@com'' 11 0) = 15 \<and>
   validBoundaries (findEmailBoundaries ''user@domain@com'' 11 0) \<and>
   validateLocalPart ''user@domain@com'' 5 11 SCAN \<and>
   validateDomainPart ''user@domain@com'' (11 + 1) 15 \<and>
   slice ''user@domain@com'' 5 15 = ''domain@com''"
  by code_simp+

lemma extract_overlap:
  "extractEmails (View ''user@domain@com'') = [''user@domain'', ''domain@com'']"
proof -
  let ?T = "''user@domain@com''"
  have "extractLoop ?T initialExtractState = extractLoop ?T
     \<lparr>pos = 11, minScannedIndex = 0, lastConsumedEnd = 11, totalCharsScanned = 11,
      extractedCount = 1, iterations = 1, emails = [''user@domain''],
      seen = {''user@domain''}\<rparr>"
    by (rule extractLoop_match [OF boundaries_overlap(1)])
      (simp_all add: initialExtractState_def MAX_SCAN_ITERATIONS_def MAX_EMAILS_EXTRACT_def
        MAX_TOTAL_CHARS_SCANNED_def)
  also have "\<dots> = extractLoop ?T
     \<lparr>pos = 15, minScannedIndex = 5, lastConsumedEnd = 15, totalCharsScanned = 21,
      extractedCount = 2, iterations = 2, emails = [''user@domain'', ''domain@com''],
      seen = {''domain@com'', ''user@domain''}\<rparr>"
    by (rule extractLoop_match [OF boundaries_overlap(2)])
      (simp_all add: MAX_SCAN_ITERATIONS_def MAX_EMAILS_EXTRACT_def MAX_TOTAL_CHARS_SCANNED_def)
  also have "\<dots> = [''user@domain'', ''domain@com'']"
    by (subst extractLoop_done) simp_all
  finally show ?thesis by (simp add: extractEmails_View MAX_INPUT_SIZE_def)
qed

lemma extractBody_bracket:
  assumes "memchr t (CHR ''@'') (pos st) = Some a" "a + 1 < length t" "t ! (a + 1) = CHR ''[''"
    and "extractBody t st = Continue st'"
  shows "emails st' = emails st"
proof -
  have nv: "\<not> validBoundaries (findEmailBoundaries t a (minScannedIndex st))"
    using findEmailBoundaries_bracket [OF assms(2,3)] by simp
  from extractBody_Continue [OF assms(4)] show ?thesis
  proof
    assume "emails st' = emails st \<and> seen st' = seen st \<and>
          minScannedIndex st' = minScannedIndex st \<and> lastConsumedEnd st' = lastConsumedEnd st \<and>
          extractedCount st' = extractedCount st"
    then show ?thesis by simp
  next
    assume "\<exists>a. memchr t (CHR ''@'') (pos st) = Some a \<and> 1 \<le> a \<and> a < length t - 3 \<and>
            lastConsumedEnd st \<le> a \<and>
            validBoundaries (findEmailBoundaries t a (minScannedIndex st)) \<and>
            validateLocalPart t (b_start (findEmailBoundaries t a (minScannedIndex st))) a SCAN \<and>
            validateDomainPart t (a + 1) (b_end (findEmailBoundaries t a (minScannedIndex st))) \<and>
            emails st' =
              (if slice t (b_start (findEmailBoundaries t a (minScannedIndex st)))
                          (b_end (findEmailBoundaries t a (minScannedIndex st))) \<in> seen st
               then emails st
               else emails st @ [slice t (b_start (findEmailBoundaries t a (minScannedIndex st)))
                          (b_end (findEmailBoundaries t a (minScannedIndex st)))]) \<and>
            seen st' = insert (slice t (b_start (findEmailBoundaries t a (minScannedIndex st)))
                          (b_end (findEmailBoundaries t a (minScannedIndex st)))) (seen st) \<and>
            extractedCount st' =
              (if slice t (b_start (findEmailBoundaries t a (minScannedIndex st)))
                          (b_end (findEmailBoundaries t a (minScannedIndex st))) \<in> seen st
               then extractedCount st else extractedCount st + 1) \<and>
            minScannedIndex st' =
              max (minScannedIndex st) (b_start (findEmailBoundaries t a (minScannedIndex st))) \<and>
            lastConsumedEnd st' =
              max (lastConsumedEnd st) (b_end (findEmailBoundaries t a (minScannedIndex st))) \<and>
            pos st' = b_end (findEmailBoundaries t a (minScannedIndex st))"
    then obtain a' where "memchr t (CHR ''@'') (pos st) = Some a'"
      "validBoundaries (findEmailBoundaries t a' (minScannedIndex st))" by blast
    then show ?thesis using assms(1) nv by simp
  qed
qed

lemma contains_accepted: "contains (View t) \<Longrightarrow> \<exists>s a e. acceptedAt t s a e"
  unfolding contains_View using containsLoop_accepted [of t] by (simp split: if_splits)

lemma extract_no_bracket: "m \<in> set (extractEmails (View t)) \<Longrightarrow> \<not> hasAtBracket m"
proof -
  assume "m \<in> set (extractEmails (View t))"
  from extract_member [OF this] obtain s a e where acc: "acceptedAt t s a e" and m: "m = slice t s e"
    by blast
  show ?thesis using acceptedAt_shape(10) [OF acc] m by simp
qed

section \<open>Properties of the scanner\<close>

text \<open>
  C10.  Every string \<open>m\<close> returned by \<open>extract\<close> is a slice of the input.  It holds
  exactly one \<open>@\<close>, at an index \<open>k\<close>.  The \<open>k\<close> bytes before it are 1 to 64 bytes that do
  not begin with a double quote or a dot, do not end with a dot, have no two dots in a row and
  are atext bytes and dots, which is what scan-mode validation of the local part accepts, on
  the input and on \<open>m\<close> alone.  The bytes after the \<open>@\<close> pass validation of the domain part,
  on the input and on \<open>m\<close> alone.
\<close>

theorem extract_match_shape:
  assumes "m \<in> set (extractEmails (View t))"
  shows "\<exists>start k. start + length m \<le> length t \<and> m = slice t start (start + length m) \<and>
     k < length m \<and> m ! k = CHR ''@'' \<and> count_list m (CHR ''@'') = 1 \<and>
     scanLocalSpec (take k m) \<and>
     validateLocalPart t start (start + k) SCAN \<and> validateLocalPart m 0 k SCAN \<and>
     validateDomainPart t (start + k + 1) (start + length m) \<and>
     validateDomainPart m (k + 1) (length m)"
proof -
  from extract_member [OF assms] obtain s a e where acc: "acceptedAt t s a e" and m: "m = slice t s e"
    by blast
  note sh = acceptedAt_shape [OF acc, folded m]
  note b = acceptedAt_bounds [OF acc]
  have len: "length m = e - s" using b by (simp add: m)
  have vl: "validateLocalPart t s (s + (a - s)) SCAN" using acc b unfolding acceptedAt_def by simp
  have vd: "validateDomainPart t (s + (a - s) + 1) (s + length m)"
    using acc b len unfolding acceptedAt_def by simp
  have "s + length m \<le> length t \<and> m = slice t s (s + length m) \<and>
     a - s < length m \<and> m ! (a - s) = CHR ''@'' \<and> count_list m (CHR ''@'') = 1 \<and>
     scanLocalSpec (take (a - s) m) \<and>
     validateLocalPart t s (s + (a - s)) SCAN \<and> validateLocalPart m 0 (a - s) SCAN \<and>
     validateDomainPart t (s + (a - s) + 1) (s + length m) \<and>
     validateDomainPart m (a - s + 1) (length m)"
    using sh(1-6,8,9) vl vd by simp
  then show ?thesis by blast
qed

theorem extract_match_shape_witness:
  "''a@b'' \<in> set (extractEmails (View ''a@b cd'')) \<and>
   (\<exists>start k. start + length ''a@b'' \<le> length ''a@b cd'' \<and>
     ''a@b'' = slice ''a@b cd'' start (start + length ''a@b'') \<and>
     k < length ''a@b'' \<and> ''a@b'' ! k = CHR ''@'' \<and> count_list ''a@b'' (CHR ''@'') = 1 \<and>
     scanLocalSpec (take k ''a@b'') \<and>
     validateLocalPart ''a@b cd'' start (start + k) SCAN \<and> validateLocalPart ''a@b'' 0 k SCAN \<and>
     validateDomainPart ''a@b cd'' (start + k + 1) (start + length ''a@b'') \<and>
     validateDomainPart ''a@b'' (k + 1) (length ''a@b''))"
proof -
  have h: "''a@b'' \<in> set (extractEmails (View ''a@b cd''))"
    by (simp add: extract_short_domain)
  show ?thesis by (rule conjI [OF h extract_match_shape [OF h]])
qed

text \<open>
  C8.  An \<open>@\<close> whose next byte is \<open>[\<close> never gives a match.  For such an anchor the
  boundary search reports invalid boundaries; an iteration of the loop of \<open>contains\<close> that
  stands at such an anchor does not leave the loop with \<open>true\<close>, and an iteration of the
  loop of \<open>extract\<close> that stands at such an anchor records no string.  Whenever \<open>contains\<close>
  returns true, there is an anchor whose next byte is not \<open>[\<close> and whose boundaries pass
  both validators.  No string returned by \<open>extract\<close> contains the two bytes \<open>@[\<close>.
\<close>

theorem bracket_anchor_never_matches:
  "(atPos + 1 < length t \<and> t ! (atPos + 1) = CHR ''['' \<longrightarrow>
      \<not> validBoundaries (findEmailBoundaries t atPos minIdx) \<and>
      (\<forall>st. memchr t (CHR ''@'') (pos st) = Some atPos \<longrightarrow> containsBody t st \<noteq> Break True) \<and>
      (\<forall>st st'. memchr t (CHR ''@'') (pos st) = Some atPos \<and> extractBody t st = Continue st'
         \<longrightarrow> emails st' = emails st)) \<and>
   (contains (View t) \<longrightarrow>
      (\<exists>start a endp. a + 1 < length t \<and> t ! a = CHR ''@'' \<and> t ! (a + 1) \<noteq> CHR ''['' \<and>
         acceptedAt t start a endp)) \<and>
   (\<forall>m \<in> set (extractEmails (View t)). \<not> hasAtBracket m)"
proof (intro conjI impI allI ballI)
  assume h: "atPos + 1 < length t \<and> t ! (atPos + 1) = CHR ''[''"
  then show "\<not> validBoundaries (findEmailBoundaries t atPos minIdx)"
    using findEmailBoundaries_bracket [of atPos t minIdx] by simp
  fix st :: ScanState
  assume "memchr t (CHR ''@'') (pos st) = Some atPos"
  then show "containsBody t st \<noteq> Break True" using containsBody_bracket [of t st atPos] h by simp
next
  fix st st' :: ExtractState
  assume "atPos + 1 < length t \<and> t ! (atPos + 1) = CHR ''[''"
    and "memchr t (CHR ''@'') (pos st) = Some atPos \<and> extractBody t st = Continue st'"
  then show "emails st' = emails st" using extractBody_bracket [of t st atPos st'] by simp
next
  assume "contains (View t)"
  from contains_accepted [OF this] obtain s a e where acc: "acceptedAt t s a e" by blast
  then have "a + 1 < length t \<and> t ! a = CHR ''@'' \<and> t ! (a + 1) \<noteq> CHR ''[''"
    unfolding acceptedAt_def by blast
  then show "\<exists>start a endp. a + 1 < length t \<and> t ! a = CHR ''@'' \<and> t ! (a + 1) \<noteq> CHR ''['' \<and>
         acceptedAt t start a endp" using acc by blast
next
  fix m assume "m \<in> set (extractEmails (View t))"
  then show "\<not> hasAtBracket m" by (rule extract_no_bracket)
qed

theorem bracket_anchor_never_matches_witness:
  "\<not> validBoundaries (findEmailBoundaries ''a@[b]'' 1 0) \<and>
   contains (View ''a@b cd'') \<and>
   (\<exists>start a endp. a + 1 < length ''a@b cd'' \<and> ''a@b cd'' ! a = CHR ''@'' \<and>
      ''a@b cd'' ! (a + 1) \<noteq> CHR ''['' \<and> acceptedAt ''a@b cd'' start a endp) \<and>
   extractEmails (View ''a@b cd'') = [''a@b''] \<and> \<not> hasAtBracket ''a@b''"
proof -
  have h: "(1::nat) + 1 < length ''a@[b]'' \<and> ''a@[b]'' ! (1 + 1) = CHR ''[''" by simp
  have 1: "\<not> validBoundaries (findEmailBoundaries ''a@[b]'' 1 0)"
    using bracket_anchor_never_matches [of 1 "''a@[b]''" 0] h by blast
  have c: "contains (View ''a@b cd'')"
    by (rule extract_nonempty_contains) (simp add: extract_short_domain)
  have m: "''a@b'' \<in> set (extractEmails (View ''a@b cd''))" by (simp add: extract_short_domain)
  note w = bracket_anchor_never_matches [of 0 "''a@b cd''" 0]
  have 2: "\<exists>start a endp. a + 1 < length ''a@b cd'' \<and> ''a@b cd'' ! a = CHR ''@'' \<and>
      ''a@b cd'' ! (a + 1) \<noteq> CHR ''['' \<and> acceptedAt ''a@b cd'' start a endp"
    using w c by blast
  have 3: "\<not> hasAtBracket ''a@b''" using w m by blast
  show ?thesis using 1 c 2 3 extract_short_domain by blast
qed




text \<open>
  C9.  For a view whose length is below 5 or above \<open>10 * 1024 * 1024\<close>, and for a null
  view with a declared length that is not zero, \<open>contains\<close> returns false and \<open>extract\<close>
  returns no string, whatever the bytes of the view are.
\<close>

theorem scanner_size_guards:
  assumes "sv_length v < 5 \<or> sv_length v > 10 * 1024 * 1024 \<or> (\<exists>n. v = NullView n \<and> 0 < n)"
  shows "\<not> contains v \<and> extractEmails v = []"
  using assms by (cases v) (auto simp: contains_def extractEmails_def Let_def MAX_INPUT_SIZE_def)

theorem scanner_size_guards_witness:
  "\<not> contains (View ''a@b'') \<and> extractEmails (View ''a@b'') = [] \<and>
   \<not> contains (View (replicate 10485761 (CHR ''@''))) \<and>
   extractEmails (View (replicate 10485761 (CHR ''@''))) = [] \<and>
   \<not> contains (NullView 7) \<and> extractEmails (NullView 7) = []"
proof -
  have 1: "\<not> contains (View ''a@b'') \<and> extractEmails (View ''a@b'') = []"
    by (rule scanner_size_guards) simp
  have 2: "\<not> contains (View (replicate 10485761 (CHR ''@''))) \<and>
     extractEmails (View (replicate 10485761 (CHR ''@''))) = []"
    by (rule scanner_size_guards) simp
  have 3: "\<not> contains (NullView 7) \<and> extractEmails (NullView 7) = []"
    by (rule scanner_size_guards) simp
  show ?thesis using 1 2 3 by simp
qed

section \<open>Running extract on a match\<close>

lemma not_isQuoteChar_at: "\<not> isQuoteChar (CHR ''@'')" by code_simp

lemma memchr_first:
  assumes "p \<le> a" "a < length t" "t ! a = c" "\<forall>k. p \<le> k \<and> k < a \<longrightarrow> t ! k \<noteq> c"
  shows "memchr t c p = Some a"
proof (cases "memchr t c p")
  case None
  from memchr_None [OF None] assms(1,2,3) show ?thesis by blast
next
  case (Some a')
  from memchr_Some [OF Some] have a': "p \<le> a'" "a' < length t" "t ! a' = c"
    "\<forall>k. p \<le> k \<and> k < a' \<longrightarrow> t ! k \<noteq> c" by simp_all
  have "\<not> a' < a" using assms(4) a'(1,3) by blast
  moreover have "\<not> a < a'" using a'(4) assms(1,3) by blast
  ultimately have "a' = a" by simp
  then show ?thesis using Some by simp
qed

lemma memchr_absent:
  assumes "\<forall>k. p \<le> k \<and> k < length t \<longrightarrow> t ! k \<noteq> c"
  shows "memchr t c p = None"
proof (cases "memchr t c p")
  case None
  then show ?thesis .
next
  case (Some a')
  from memchr_Some [OF Some] assms show ?thesis by blast
qed

lemma domainScanLoop_all:
  "p \<le> length t \<Longrightarrow> \<forall>k. p \<le> k \<and> k < length t \<longrightarrow> isDomainChar (t ! k) \<Longrightarrow>
   domainScanLoop t p = length t"
proof (induction "length t - p" arbitrary: p)
  case 0
  then show ?case by (subst domainScanLoop.simps) simp
next
  case (Suc n)
  then have lt: "p < length t" by simp
  then have "isDomainChar (t ! p)" using Suc.prems(2) by simp
  then have "domainScanLoop t p = domainScanLoop t (p + 1)"
    by (subst domainScanLoop.simps) (use lt in simp)
  moreover have "domainScanLoop t (p + 1) = length t"
    by (rule Suc.hyps(1)) (use Suc.hyps(2) Suc.prems lt in auto)
  ultimately show ?case by simp
qed

text \<open>The left scan over a local part that scan-mode validation accepts: it walks back to
  the first byte of the part when that byte is at the left limit of the scan or follows an
  \<open>@\<close>, and the text ends with the domain.\<close>

lemma leftScan_clean:
  assumes inv: "\<forall>k. s \<le> k \<and> k < a \<longrightarrow> (isAtext (t ! k) \<and> t ! k \<noteq> CHR ''@'')"
    and nodots: "\<forall>k. s \<le> k \<and> Suc k < a \<longrightarrow> \<not> (t ! k = CHR ''.'' \<and> t ! Suc k = CHR ''.'')"
    and first: "t ! s \<noteq> CHR ''.''"
    and left: "s = effMin \<or> (effMin < s \<and> t ! (s - 1) = CHR ''@'')"
    and endp: "\<not> endp < length t"
  shows "s \<le> start \<Longrightarrow> start \<le> a \<Longrightarrow> leftScanLoop t a endp effMin start = (s, False, a)"
proof (induction "start - s" arbitrary: start)
  case 0
  then have st: "start = s" by simp
  from left show ?case
  proof
    assume "s = effMin"
    then show ?thesis unfolding st by (subst leftScanLoop.simps) simp
  next
    assume "effMin < s \<and> t ! (s - 1) = CHR ''@''"
    then show ?thesis unfolding st by (subst leftScanLoop.simps) simp
  qed
next
  case (Suc n)
  then have gt: "s < start" by simp
  have em: "effMin \<le> s" using left by auto
  then have g: "effMin < start" using gt by simp
  let ?c = "t ! (start - 1)"
  have "s \<le> start - 1 \<and> start - 1 < a" using gt Suc.prems by arith
  with inv have "isAtext ?c \<and> ?c \<noteq> CHR ''@''" by blast
  then have c: "isAtext ?c" "?c \<noteq> CHR ''@''" by simp_all
  have ninv: "\<not> isInvalidLocalChar ?c" using c(1) char_classes [of ?c] by blast
  have ndd: "\<not> (?c = CHR ''.'' \<and> start > effMin + 1 \<and> start \<ge> 2 \<and> t ! (start - 2) = CHR ''.'')"
  proof (cases "start - 1 = s")
    case True
    then show ?thesis using first by simp
  next
    case False
    then have "s \<le> start - 2" "Suc (start - 2) < a" "Suc (start - 2) = start - 1"
      using gt Suc.prems by auto
    then show ?thesis using nodots by metis
  qed
  have IH: "leftScanLoop t a endp effMin (start - 1) = (s, False, a)"
    by (rule Suc.hyps(1)) (use Suc.hyps(2) Suc.prems gt in auto)
  have edge: "start = effMin + 1 \<Longrightarrow> start - 1 = s" using gt em by simp
  show ?case
    by (subst leftScanLoop.simps) (use g c ninv ndd IH edge endp in auto)
qed

lemma trimRightLoop_id: "t ! (e - 1) \<noteq> c \<Longrightarrow> trimRightLoop t a c e = e"
  by (subst trimRightLoop.simps) simp

lemma leadingDotLoop_id: "t ! s \<noteq> CHR ''.'' \<Longrightarrow> leadingDotLoop t a s = s"
  by (subst leadingDotLoop.simps) simp

lemma findFirstAlnum_here:
  "isAlphaNum (t ! s) \<Longrightarrow> s < a \<Longrightarrow> a \<le> length t \<Longrightarrow> findFirstAlnum t s a = Some s"
  unfolding findFirstAlnum_def by (subst findFirstAlnumLoop.simps) simp

text \<open>The boundaries of an anchor whose local part and domain are clean and whose domain
  runs to the end of the text.\<close>

lemma findEmailBoundaries_span:
  assumes b: "s < a" "a + 1 < length t"
    and loc: "scanLocalSpec (slice t s a)"
    and dom: "domainLabelsSpec (slice t (a + 1) (length t))"
    and left: "s = effectiveMinOf a m \<or>
       (effectiveMinOf a m < s \<and> t ! (s - 1) = CHR ''@'' \<and> isAlphaNum (t ! s))"
  shows "b_start (findEmailBoundaries t a m) = s \<and> b_end (findEmailBoundaries t a m) = length t \<and>
         validBoundaries (findEmailBoundaries t a m)"
proof -
  let ?L = "slice t s a" and ?D = "slice t (a + 1) (length t)"
  let ?e = "length t" and ?m = "effectiveMinOf a m"
  have lenL: "length ?L = a - s" using b by simp
  have lenD: "length ?D = ?e - (a + 1)" using b by simp
  have Lk: "\<And>k. s \<le> k \<Longrightarrow> k < a \<Longrightarrow> t ! k \<in> set ?L"
  proof -
    fix k assume k: "s \<le> k" "k < a"
    then have "?L ! (k - s) = t ! (s + (k - s))" using b by (intro nth_slice') simp_all
    moreover have "k - s < length ?L" using k lenL by simp
    ultimately show "t ! k \<in> set ?L" using k by (metis le_add_diff_inverse nth_mem)
  qed
  have Dk: "\<And>k. a + 1 \<le> k \<Longrightarrow> k < ?e \<Longrightarrow> t ! k \<in> set ?D"
  proof -
    fix k assume k: "a + 1 \<le> k" "k < ?e"
    then have "?D ! (k - (a + 1)) = t ! (a + 1 + (k - (a + 1)))" by (intro nth_slice') simp_all
    moreover have "k - (a + 1) < length ?D" using k lenD by simp
    ultimately show "t ! k \<in> set ?D" using k by (metis le_add_diff_inverse nth_mem)
  qed
  have atext: "\<forall>c \<in> set ?L. c = CHR ''.'' \<or> isAtext c" using loc by (simp add: scanLocalSpec_def)
  have inv: "\<forall>k. s \<le> k \<and> k < a \<longrightarrow> (isAtext (t ! k) \<and> t ! k \<noteq> CHR ''@'')"
  proof (intro allI impI)
    fix k assume k: "s \<le> k \<and> k < a"
    then have mem: "t ! k \<in> set ?L" using Lk by simp
    from bspec [OF atext mem] have "isAtext (t ! k)" using isAtext_dot by auto
    then show "isAtext (t ! k) \<and> t ! k \<noteq> CHR ''@''" using not_isAtext_at by auto
  qed
  have ncd: "noConsecutiveDots ?L" using loc by (simp add: scanLocalSpec_def)
  have nodots: "\<forall>k. s \<le> k \<and> Suc k < a \<longrightarrow> \<not> (t ! k = CHR ''.'' \<and> t ! Suc k = CHR ''.'')"
  proof (intro allI impI)
    fix k assume k: "s \<le> k \<and> Suc k < a"
    then have i: "Suc (k - s) < length ?L" unfolding lenL by arith
    have k': "s \<le> k" "Suc k < a" using k by simp_all
    have 1: "?L ! (k - s) = t ! (s + (k - s))" using k' b by (intro nth_slice') simp_all
    have 2: "?L ! Suc (k - s) = t ! (s + Suc (k - s))" using k' b by (intro nth_slice') simp_all
    have "\<not> (?L ! (k - s) = CHR ''.'' \<and> ?L ! Suc (k - s) = CHR ''.'')"
      using ncd i unfolding noConsecutiveDots_nth by blast
    then show "\<not> (t ! k = CHR ''.'' \<and> t ! Suc k = CHR ''.'')" using 1 2 k' by simp
  qed
  have first: "t ! s \<noteq> CHR ''.''"
    using loc hd_slice [of s a t] b by (simp add: scanLocalSpec_def)
  have left': "s = ?m \<or> (?m < s \<and> t ! (s - 1) = CHR ''@'')" using left by blast
  have ls: "leftScanLoop t a ?e ?m a = (s, False, a)"
    by (rule leftScan_clean [OF inv nodots first left']) (use b in simp_all)
  have dch: "\<forall>k. a + 1 \<le> k \<and> k < ?e \<longrightarrow> isDomainChar (t ! k)"
  proof (intro allI impI)
    fix k assume k: "a + 1 \<le> k \<and> k < ?e"
    then have "t ! k \<in> set ?D" using Dk by simp
    from domain_chars [OF dom this] show "isDomainChar (t ! k)"
      using char_classes [of "t ! k"] isAlphaNum_iff [of "t ! k"] by blast
  qed
  have e1: "domainScanLoop t (a + 1) = ?e"
    by (rule domainScanLoop_all [OF _ dch]) (use b in simp)
  have lastD: "t ! (?e - 1) \<noteq> CHR ''.''"
    using dom last_slice [of "a + 1" ?e t] b by (simp add: domainLabelsSpec_def)
  have se: "scanEnd t a = ?e"
    unfolding scanEnd_def Let_def e1 trimRightLoop_id [OF lastD] by simp
  have nb: "\<not> (a + 1 < length t \<and> t ! (a + 1) = CHR ''['')"
    using domain_no_at(2) [OF dom] hd_slice [of "a + 1" ?e t] b by simp
  have alt: "a < length t" using b by simp
  have ls': "leftScanLoop t a (scanEnd t a) ?m a = (s, False, a)" unfolding se by (rule ls)
  have feb: "findEmailBoundaries t a m = finishBoundaries t a ?e ?m s False"
    using findEmailBoundaries_cases [OF alt nb ls'] se by simp
  have ld: "leadingDotLoop t a s = s" by (rule leadingDotLoop_id [OF first])
  have fin: "finishBoundaries t a ?e ?m s False =
      \<lparr>b_start = s, b_end = ?e, validBoundaries = True, skipTo = 0\<rparr>"
  using left
  proof
    assume "s = ?m"
    then show ?thesis
      unfolding finishBoundaries_def Let_def ld
      using b by (simp add: leftBoundaryLegal_def rightBoundaryLegal_def)
  next
    assume h: "?m < s \<and> t ! (s - 1) = CHR ''@'' \<and> isAlphaNum (t ! s)"
    then have ff: "findFirstAlnum t s a = Some s" using findFirstAlnum_here [of t s a] b by simp
    show ?thesis
      unfolding finishBoundaries_def Let_def ld
      using b h ff isInvalid_at not_isQuoteChar_at
      by (simp add: leftBoundaryLegal_def rightBoundaryLegal_def Let_def)
  qed
  show ?thesis unfolding feb fin by simp
qed

lemma extractLoop_edge:
  assumes "memchr t (CHR ''@'') (pos st) = Some a" "a < 1 \<or> a \<ge> length t - 3"
    and "pos st < length t" "iterations st < MAX_SCAN_ITERATIONS"
    and "extractedCount st < MAX_EMAILS_EXTRACT"
  shows "extractLoop t st = extractLoop t (st\<lparr>iterations := iterations st + 1, pos := a + 1\<rparr>)"
proof -
  let ?st = "st\<lparr>iterations := iterations st + 1\<rparr>"
  have m: "memchr t (CHR ''@'') (pos ?st) = Some a" using assms(1) by simp
  have c: "\<not> extractedCount ?st \<ge> MAX_EMAILS_EXTRACT" using assms(5) by simp
  have "extractBody t ?st = Continue (?st\<lparr>pos := a + 1\<rparr>)"
    unfolding extractBody_eq [OF m c refl refl] using assms(2) by simp
  then show ?thesis using extractLoop_unfold [OF assms(3,4)] by simp
qed

text \<open>Running \<open>extract\<close> on a string that it returned.\<close>

lemma extract_again:
  assumes acc: "acceptedAt t s a e" and m: "m = slice t s e"
  shows "memchr m (CHR ''@'') 0 = Some (a - s) \<and>
         extractEmails (View m) = (if a - s + 3 < length m then [m] else [])"
proof -
  let ?k = "a - s"
  note sh = acceptedAt_shape [OF acc, folded m]
  have mc: "memchr m (CHR ''@'') 0 = Some ?k"
    by (rule memchr_first) (use sh(3,4,13) in simp_all)
  have after: "\<forall>j. ?k + 1 \<le> j \<and> j < length m \<longrightarrow> m ! j \<noteq> CHR ''@''"
  proof (intro allI impI)
    fix j assume "?k + 1 \<le> j \<and> j < length m"
    then have j: "?k + 1 \<le> j" "j < length m" by simp_all
    then have "drop (?k + 1) m ! (j - (?k + 1)) = m ! j" "j - (?k + 1) < length (drop (?k + 1) m)"
      by simp_all
    then have "m ! j \<in> set (drop (?k + 1) m)" by (metis nth_mem)
    then show "m ! j \<noteq> CHR ''@''" using sh(14) by metis
  qed
  have none: "memchr m (CHR ''@'') (?k + 1) = None" by (rule memchr_absent [OF after])
  have big: "\<not> length m > MAX_INPUT_SIZE" using sh(12) by (simp add: MAX_INPUT_SIZE_def)
  show ?thesis
  proof (cases "?k + 3 < length m")
    case True
    have sl0: "slice m 0 ?k = take ?k m" by (simp add: slice_def substr_def)
    have sl1: "slice m (?k + 1) (length m) = drop (?k + 1) m" by (simp add: slice_def substr_def)
    have "length (take ?k m) \<le> 64" using sh(6) by (simp add: scanLocalSpec_def)
    then have k64: "?k \<le> 64" using sh(3) by simp
    have em: "effectiveMinOf ?k 0 = 0" using k64 by (simp add: effectiveMinOf_def MAX_LEFT_SCAN_def)
    have fb: "b_start (findEmailBoundaries m ?k 0) = 0 \<and>
        b_end (findEmailBoundaries m ?k 0) = length m \<and>
        validBoundaries (findEmailBoundaries m ?k 0)"
      by (rule findEmailBoundaries_span) (use sh(3,6,7,11) True sl0 sl1 em in simp_all)
    have ev: "memchr m (CHR ''@'') 0 = Some ?k \<and>
      b_start (findEmailBoundaries m ?k 0) = 0 \<and> b_end (findEmailBoundaries m ?k 0) = length m \<and>
      validBoundaries (findEmailBoundaries m ?k 0) \<and>
      validateLocalPart m 0 ?k SCAN \<and> validateDomainPart m (?k + 1) (length m) \<and>
      slice m 0 (length m) = m"
      using mc fb sh(8,9) slice_full by simp
    have ne: "m \<noteq> []" using True by auto
    have "extractLoop m initialExtractState = extractLoop m
       \<lparr>pos = length m, minScannedIndex = 0, lastConsumedEnd = length m,
        totalCharsScanned = length m, extractedCount = 1, iterations = 1, emails = [m],
        seen = {m}\<rparr>"
      by (rule extractLoop_match [OF ev])
        (use sh(11,12) True ne in \<open>simp_all add: initialExtractState_def MAX_SCAN_ITERATIONS_def
          MAX_EMAILS_EXTRACT_def MAX_TOTAL_CHARS_SCANNED_def\<close>)
    also have "\<dots> = [m]" by (subst extractLoop_done) simp_all
    finally show ?thesis using True big mc sh(11) by (simp add: extractEmails_View)
  next
    case False
    show ?thesis
    proof (cases "length m < 5")
      case True
      then show ?thesis using False mc by (simp add: extractEmails_View)
    next
      case l5: False
      have edge: "?k < 1 \<or> ?k \<ge> length m - 3" using False by arith
      have ne: "0 < length m" using l5 by arith
      have "extractLoop m initialExtractState =
          extractLoop m (initialExtractState\<lparr>iterations := iterations initialExtractState + 1,
            pos := ?k + 1\<rparr>)"
        by (rule extractLoop_edge)
          (use mc edge ne in \<open>simp_all add: initialExtractState_def MAX_SCAN_ITERATIONS_def
            MAX_EMAILS_EXTRACT_def\<close>)
      also have "\<dots> = []"
        by (subst extractLoop_no_anchor [OF none]) (simp_all add: initialExtractState_def)
      finally show ?thesis using False big l5 mc by (simp add: extractEmails_View)
    qed
  qed
qed

text \<open>
  C2, as the code has it.  A string \<open>m\<close> returned by \<open>extract\<close> holds one \<open>@\<close>, at the
  index \<open>k\<close> that \<open>memchr\<close> finds.  Running \<open>extract\<close> on \<open>m\<close> alone returns exactly
  \<open>[m]\<close> when the \<open>@\<close> of \<open>m\<close> is followed by at least three bytes, that is when
  \<open>k + 3 < length m\<close>, and returns no string otherwise: an anchor in the last three bytes of
  the text it is given is skipped by \<open>extract\<close>, and a text shorter than five bytes is
  rejected.
\<close>

theorem extract_idempotent_long_domain:
  assumes "m \<in> set (extractEmails (View t))"
  shows "\<exists>k. memchr m (CHR ''@'') 0 = Some k \<and>
           extractEmails (View m) = (if k + 3 < length m then [m] else [])"
proof -
  from extract_member [OF assms] obtain s a e where "acceptedAt t s a e" "m = slice t s e"
    by blast
  from extract_again [OF this] show ?thesis by blast
qed

theorem extract_idempotent_long_domain_witness:
  "''user@domain'' \<in> set (extractEmails (View ''user@domain@com'')) \<and>
   extractEmails (View ''user@domain'') = [''user@domain'']"
proof -
  have h: "''user@domain'' \<in> set (extractEmails (View ''user@domain@com''))"
    by (simp add: extract_overlap)
  from extract_idempotent_long_domain [OF h] obtain k where
    k: "memchr ''user@domain'' (CHR ''@'') 0 = Some k"
      "extractEmails (View ''user@domain'') =
         (if k + 3 < length ''user@domain'' then [''user@domain''] else [])"
    by blast
  have "memchr ''user@domain'' (CHR ''@'') 0 = Some 4" by code_simp
  then have "k = 4" using k(1) by simp
  then show ?thesis using h k(2) by simp
qed

text \<open>A string returned by \<open>extract\<close> on which \<open>extract\<close> returns nothing: the match
  \<open>a@b\<close> of the text \<open>a@b cd\<close>.\<close>

theorem extract_not_idempotent:
  "extractEmails (View ''a@b cd'') = [''a@b''] \<and> extractEmails (View ''a@b'') = []"
  using extract_short_domain by (simp add: extractEmails_View)

section \<open>The iteration limit of extract\<close>

text \<open>An anchor that directly follows another \<open>@\<close> is rejected by the boundary search,
  which names the next byte as the place to resume.\<close>

lemma findEmailBoundaries_after_at:
  assumes "1 \<le> a" "a < length t" "t ! (a - 1) = CHR ''@''"
    and nb: "\<not> (a + 1 < length t \<and> t ! (a + 1) = CHR ''['')"
  shows "findEmailBoundaries t a m =
     \<lparr>b_start = a, b_end = a, validBoundaries = False, skipTo = a + 1\<rparr>"
proof -
  let ?m = "effectiveMinOf a m" and ?e = "scanEnd t a"
  have ls: "leftScanLoop t a ?e ?m a = (a, False, a)"
    by (subst leftScanLoop.simps) (use assms(3) in simp)
  have ld: "leadingDotLoop t a a = a" by (subst leadingDotLoop.simps) simp
  have "findEmailBoundaries t a m = finishBoundaries t a ?e ?m a False"
    using findEmailBoundaries_cases [OF assms(2) nb ls] by simp
  also have "\<dots> = \<lparr>b_start = a, b_end = a, validBoundaries = False, skipTo = a + 1\<rparr>"
    unfolding finishBoundaries_def Let_def ld using assms(2) by simp
  finally show ?thesis .
qed

lemma containsLoop_unfold:
  "pos st < length t \<Longrightarrow>
   containsLoop t st =
     (case containsBody t st of Break r \<Rightarrow> r | Continue st' \<Rightarrow> containsLoop t st')"
  by (subst containsLoop.simps) simp

text \<open>One iteration of either loop at an anchor that stands at the start of the text or
  directly after another \<open>@\<close>: the loop moves on to the next byte and nothing else changes.\<close>

lemma containsLoop_after_at:
  assumes "p < length t" "t ! p = CHR ''@''" "p = 0 \<or> t ! (p - 1) = CHR ''@''"
    and "\<not> (p + 1 < length t \<and> t ! (p + 1) = CHR ''['')"
    and "tot \<le> MAX_TOTAL_CHARS_SCANNED"
  shows "containsLoop t \<lparr>pos = p, minScannedIndex = 0, lastConsumedEnd = 0, totalCharsScanned = tot\<rparr> =
         containsLoop t \<lparr>pos = p + 1, minScannedIndex = 0, lastConsumedEnd = 0, totalCharsScanned = tot\<rparr>"
proof -
  let ?st = "\<lparr>pos = p, minScannedIndex = 0, lastConsumedEnd = 0, totalCharsScanned = tot\<rparr>"
  have m: "memchr t (CHR ''@'') (pos ?st) = Some p"
    by (rule memchr_first) (use assms(1,2) in auto)
  have "containsBody t ?st = Continue
      \<lparr>pos = p + 1, minScannedIndex = 0, lastConsumedEnd = 0, totalCharsScanned = tot\<rparr>"
  proof (cases "p < 1 \<or> p \<ge> length t - 3")
    case True
    then show ?thesis unfolding containsBody_eq [OF m refl refl] by simp
  next
    case False
    then have "1 \<le> p" "t ! (p - 1) = CHR ''@''" using assms(3) by auto
    from findEmailBoundaries_after_at [OF this(1) assms(1) this(2) assms(4), of 0]
    show ?thesis unfolding containsBody_eq [OF m refl refl] using False assms(5) by simp
  qed
  then show ?thesis using containsLoop_unfold [of ?st t] assms(1) by simp
qed

lemma extractLoop_after_at:
  assumes "p < length t" "t ! p = CHR ''@''" "p = 0 \<or> t ! (p - 1) = CHR ''@''"
    and "\<not> (p + 1 < length t \<and> t ! (p + 1) = CHR ''['')"
    and "i < MAX_SCAN_ITERATIONS"
  shows "extractLoop t \<lparr>pos = p, minScannedIndex = 0, lastConsumedEnd = 0, totalCharsScanned = 0,
            extractedCount = 0, iterations = i, emails = [], seen = {}\<rparr> =
         extractLoop t \<lparr>pos = p + 1, minScannedIndex = 0, lastConsumedEnd = 0, totalCharsScanned = 0,
            extractedCount = 0, iterations = i + 1, emails = [], seen = {}\<rparr>"
proof -
  let ?st = "\<lparr>pos = p, minScannedIndex = 0, lastConsumedEnd = 0, totalCharsScanned = 0,
            extractedCount = 0, iterations = i + 1, emails = [], seen = {}\<rparr> :: ExtractState"
  have m: "memchr t (CHR ''@'') (pos ?st) = Some p"
    by (rule memchr_first) (use assms(1,2) in auto)
  have c: "\<not> extractedCount ?st \<ge> MAX_EMAILS_EXTRACT" by (simp add: MAX_EMAILS_EXTRACT_def)
  have "extractBody t ?st = Continue
      \<lparr>pos = p + 1, minScannedIndex = 0, lastConsumedEnd = 0, totalCharsScanned = 0,
            extractedCount = 0, iterations = i + 1, emails = [], seen = {}\<rparr>"
  proof (cases "p < 1 \<or> p \<ge> length t - 3")
    case True
    then show ?thesis unfolding extractBody_eq [OF m c refl refl] by simp
  next
    case False
    then have "1 \<le> p" "t ! (p - 1) = CHR ''@''" using assms(3) by auto
    from findEmailBoundaries_after_at [OF this(1) assms(1) this(2) assms(4), of 0]
    show ?thesis unfolding extractBody_eq [OF m c refl refl] using False
      by (simp add: MAX_TOTAL_CHARS_SCANNED_def)
  qed
  then show ?thesis
    using extractLoop_unfold [of "\<lparr>pos = p, minScannedIndex = 0, lastConsumedEnd = 0,
      totalCharsScanned = 0, extractedCount = 0, iterations = i, emails = [], seen = {}\<rparr>" t]
      assms(1,5) by simp
qed

text \<open>A text that starts with a run of \<open>n\<close> bytes \<open>@\<close>: both loops walk over the run one
  anchor per iteration.\<close>

lemma containsLoop_run:
  assumes run: "\<forall>i < n. t ! i = CHR ''@''" and len: "n < length t" and nb: "t ! n \<noteq> CHR ''[''"
  shows "k \<le> n \<Longrightarrow>
    containsLoop t \<lparr>pos = 0, minScannedIndex = 0, lastConsumedEnd = 0, totalCharsScanned = 0\<rparr> =
    containsLoop t \<lparr>pos = k, minScannedIndex = 0, lastConsumedEnd = 0, totalCharsScanned = 0\<rparr>"
proof (induction k)
  case 0
  show ?case by simp
next
  case (Suc k)
  then have k: "k < n" by simp
  have nbk: "\<not> (k + 1 < length t \<and> t ! (k + 1) = CHR ''['')"
  proof (cases "k + 1 < n")
    case True
    then show ?thesis using run by simp
  next
    case False
    then have "k + 1 = n" using k by simp
    then show ?thesis using nb by simp
  qed
  have prev: "k = 0 \<or> t ! (k - 1) = CHR ''@''" using run k by (cases k) simp_all
  have "containsLoop t \<lparr>pos = k, minScannedIndex = 0, lastConsumedEnd = 0, totalCharsScanned = 0\<rparr> =
        containsLoop t \<lparr>pos = k + 1, minScannedIndex = 0, lastConsumedEnd = 0, totalCharsScanned = 0\<rparr>"
    by (rule containsLoop_after_at) (use run k len nbk prev in simp_all)
  then show ?case using Suc.IH k by simp
qed

lemma extractLoop_run:
  assumes run: "\<forall>i < n. t ! i = CHR ''@''" and len: "n < length t" and nb: "t ! n \<noteq> CHR ''[''"
  shows "k \<le> n \<Longrightarrow> k \<le> MAX_SCAN_ITERATIONS \<Longrightarrow>
    extractLoop t initialExtractState =
    extractLoop t \<lparr>pos = k, minScannedIndex = 0, lastConsumedEnd = 0, totalCharsScanned = 0,
       extractedCount = 0, iterations = k, emails = [], seen = {}\<rparr>"
proof (induction k)
  case 0
  show ?case by (simp add: initialExtractState_def)
next
  case (Suc k)
  then have k: "k < n" "k < MAX_SCAN_ITERATIONS" by simp_all
  have nbk: "\<not> (k + 1 < length t \<and> t ! (k + 1) = CHR ''['')"
  proof (cases "k + 1 < n")
    case True
    then show ?thesis using run by simp
  next
    case False
    then have "k + 1 = n" using k by simp
    then show ?thesis using nb by simp
  qed
  have prev: "k = 0 \<or> t ! (k - 1) = CHR ''@''" using run k by (cases k) simp_all
  have "extractLoop t \<lparr>pos = k, minScannedIndex = 0, lastConsumedEnd = 0, totalCharsScanned = 0,
            extractedCount = 0, iterations = k, emails = [], seen = {}\<rparr> =
         extractLoop t \<lparr>pos = k + 1, minScannedIndex = 0, lastConsumedEnd = 0, totalCharsScanned = 0,
            extractedCount = 0, iterations = k + 1, emails = [], seen = {}\<rparr>"
    by (rule extractLoop_after_at) (use run k len nbk prev in simp_all)
  then show ?case using Suc.IH k by simp
qed

text \<open>The text made of \<open>n\<close> bytes \<open>@\<close> followed by \<open>a@b.com\<close>.\<close>

lemma run_then_address:
  fixes n :: nat
  defines "T \<equiv> replicate n (CHR ''@'') @ ''a@b.com''"
  shows "n + 7 \<le> MAX_INPUT_SIZE \<Longrightarrow> contains (View T)"
    and "MAX_SCAN_ITERATIONS \<le> n \<Longrightarrow> extractEmails (View T) = []"
proof -
  have len: "length T = n + 7" by (simp add: T_def)
  have run: "\<forall>i < n. T ! i = CHR ''@''" by (simp add: T_def nth_append)
  have tail: "T ! n = CHR ''a''" "T ! (n + 1) = CHR ''@''" "T ! (n + 2) = CHR ''b''"
    by (simp_all add: T_def nth_append)
  have nb: "T ! n \<noteq> CHR ''[''" using tail by simp
  have ln: "n < length T" using len by simp
  {
    assume big: "MAX_SCAN_ITERATIONS \<le> n"
    let ?st = "\<lparr>pos = MAX_SCAN_ITERATIONS, minScannedIndex = 0, lastConsumedEnd = 0,
       totalCharsScanned = 0, extractedCount = 0, iterations = MAX_SCAN_ITERATIONS,
       emails = [], seen = {}\<rparr> :: ExtractState"
    have "extractLoop T initialExtractState = extractLoop T ?st"
      by (rule extractLoop_run [OF run ln nb]) (use big in simp_all)
    also have "\<dots> = []" by (subst extractLoop.simps) simp
    finally show "extractEmails (View T) = []" by (simp add: extractEmails_View)
  }
  {
    assume small: "n + 7 \<le> MAX_INPUT_SIZE"
    let ?st = "\<lparr>pos = n, minScannedIndex = 0, lastConsumedEnd = 0, totalCharsScanned = 0\<rparr>"
    have walk: "containsLoop T \<lparr>pos = 0, minScannedIndex = 0, lastConsumedEnd = 0,
        totalCharsScanned = 0\<rparr> = containsLoop T ?st"
      by (rule containsLoop_run [OF run ln nb]) simp
    have m: "memchr T (CHR ''@'') (pos ?st) = Some (n + 1)"
      by (rule memchr_first) (use len tail in \<open>auto simp: le_less_Suc_eq\<close>)
    have sl: "slice T n (n + 1) = ''a''" "slice T (n + 1 + 1) (length T) = ''b.com''"
      by (simp_all add: T_def slice_def substr_def)
    have loc: "scanLocalSpec (slice T n (n + 1))" unfolding sl by code_simp
    have dom: "domainLabelsSpec (slice T (n + 1 + 1) (length T))" unfolding sl by code_simp
    have an: "isAlphaNum (T ! n)" unfolding tail by code_simp
    have left: "n = effectiveMinOf (n + 1) 0 \<or>
       (effectiveMinOf (n + 1) 0 < n \<and> T ! (n - 1) = CHR ''@'' \<and> isAlphaNum (T ! n))"
    proof (cases "n = 0")
      case True
      then show ?thesis by (simp add: effectiveMinOf_def MAX_LEFT_SCAN_def)
    next
      case False
      then have "T ! (n - 1) = CHR ''@''" using run by simp
      moreover have "effectiveMinOf (n + 1) 0 < n"
        using False by (simp add: effectiveMinOf_def MAX_LEFT_SCAN_def)
      ultimately show ?thesis using an by simp
    qed
    have fb: "b_start (findEmailBoundaries T (n + 1) 0) = n \<and>
        b_end (findEmailBoundaries T (n + 1) 0) = length T \<and>
        validBoundaries (findEmailBoundaries T (n + 1) 0)"
      by (rule findEmailBoundaries_span [OF _ _ loc dom left]) (use len in simp_all)
    have vl: "validateLocalPart T n (n + 1) SCAN"
      unfolding validateLocalPart_SCAN using loc len by simp
    have vd: "validateDomainPart T (n + 1 + 1) (length T)"
      using validateDomainPart_labels [of "n + 1 + 1" "length T" T] dom tail(3) by simp
    have "containsBody T ?st = Break True"
      unfolding containsBody_eq [OF m refl refl]
      using fb vl vd len by (simp add: MAX_TOTAL_CHARS_SCANNED_def)
    then have "containsLoop T ?st" using containsLoop_unfold [of ?st T] ln by simp
    then show "contains (View T)" using walk small len by (simp add: contains_View)
  }
qed

text \<open>
  C1, as the code has it.  Whenever \<open>extract\<close> returns a string, \<open>contains\<close> returns
  true.  For a text with at most 100000 bytes \<open>@\<close>, which is the number of iterations the
  loop of \<open>extract\<close> allows itself, the converse holds too: \<open>contains\<close> returns true
  exactly when \<open>extract\<close> returns at least one string.
\<close>

theorem contains_iff_extract_bounded:
  "(extractEmails (View t) \<noteq> [] \<longrightarrow> contains (View t)) \<and>
   (count_list t (CHR ''@'') \<le> MAX_SCAN_ITERATIONS \<longrightarrow>
      (contains (View t) \<longleftrightarrow> extractEmails (View t) \<noteq> []))"
  using extract_nonempty_contains [of t] contains_extract_nonempty [of t] by blast

theorem contains_iff_extract_bounded_witness:
  "count_list ''a@b cd'' (CHR ''@'') \<le> MAX_SCAN_ITERATIONS \<and> contains (View ''a@b cd'') \<and>
   extractEmails (View ''a@b cd'') \<noteq> []"
proof -
  have c: "count_list ''a@b cd'' (CHR ''@'') \<le> MAX_SCAN_ITERATIONS"
    by (simp add: MAX_SCAN_ITERATIONS_def)
  have e: "extractEmails (View ''a@b cd'') \<noteq> []" by (simp add: extract_short_domain)
  from contains_iff_extract_bounded [of "''a@b cd''"] c e show ?thesis by blast
qed

text \<open>A text of 100007 bytes on which \<open>contains\<close> returns true and \<open>extract\<close> returns no
  string: 100000 bytes \<open>@\<close> followed by \<open>a@b.com\<close>.  The loop of \<open>extract\<close> spends its
  100000 iterations on the run of \<open>@\<close>; the loop of \<open>contains\<close> has no such limit.\<close>

theorem contains_without_extract:
  "length (replicate 100000 (CHR ''@'') @ ''a@b.com'') = 100007 \<and>
   contains (View (replicate 100000 (CHR ''@'') @ ''a@b.com'')) \<and>
   extractEmails (View (replicate 100000 (CHR ''@'') @ ''a@b.com'')) = []"
  using run_then_address [of 100000] by (simp add: MAX_INPUT_SIZE_def MAX_SCAN_ITERATIONS_def)

section \<open>IPv6 literals\<close>


















lemma splitOn_Cons_sep: "splitOn sep (sep # s) = [] # splitOn sep s"
  by simp












declare ipv6Loop.simps [simp del] hexRunLoop.simps [simp del]







end
